theory Spec2Isabelle
  imports Main "HOL-Library.Word"
begin

section \<open>Fixed-width integers and their byte images\<close>

text \<open>
  The record format of \<^verbatim>\<open>stdex/idrec.hpp\<close> is parameterised by two integer types,
  \<^verbatim>\<open>T_ID\<close> and \<^verbatim>\<open>T_SIZE\<close>, and by the alignment \<^verbatim>\<open>ALIGN\<close>, a constant of type
  \<^verbatim>\<open>T_SIZE\<close>, taken to be unsigned. Both types are modelled as words of an arbitrary
  width, so that every arithmetic operation of the source wraps as the unsigned C++
  operation does; for a C++ type the width is \<open>8 * sizeof\<close>.
  A value is stored in the stream as its \<^verbatim>\<open>sizeof\<close> bytes, least significant first.
\<close>

type_synonym byte = "8 word"

definition sizeof :: "'a::len itself \<Rightarrow> nat" where
  "sizeof t = (LENGTH('a) + 7) div 8"

primrec to_bytes :: "nat \<Rightarrow> nat \<Rightarrow> byte list" where
  "to_bytes 0 v = []"
| "to_bytes (Suc n) v = of_nat (v mod 256) # to_bytes n (v div 256)"

primrec from_bytes :: "byte list \<Rightarrow> nat" where
  "from_bytes [] = 0"
| "from_bytes (b # bs) = unat b + 256 * from_bytes bs"

definition word_bytes :: "'a::len word \<Rightarrow> byte list" where
  "word_bytes w = to_bytes (sizeof TYPE('a)) (unat w)"

definition bytes_word :: "byte list \<Rightarrow> 'a::len word" where
  "bytes_word bs = of_nat (from_bytes bs)"

section \<open>Padding\<close>

text \<open>
  \<^verbatim>\<open>template <class T_SIZE, T_SIZE ALIGN> T_SIZE padding(T_SIZE size)
  { return (ALIGN - (size % ALIGN)) % ALIGN; }\<close>

  For \<^verbatim>\<open>ALIGN = 0\<close> the source divides by zero, which has no defined result; every
  statement below is about \<^verbatim>\<open>ALIGN \<noteq> 0\<close>.
\<close>

definition padding :: "'a::len word \<Rightarrow> 'a word \<Rightarrow> 'a word" where
  "padding ALIGN sz = (ALIGN - (sz mod ALIGN)) mod ALIGN"

section \<open>Streams\<close>

text \<open>
  Modelled from the spec: the stream abstraction of \<^verbatim>\<open>stdex/stream.hpp\<close>, which is not
  among the sources (sections 3 and 4.1 of the specification): a byte store, a position
  and a state out of \<^verbatim>\<open>{ok, eof, fail}\<close>. \<open>capacity\<close> is the size up to which the backing
  store accepts bytes (\<open>None\<close>: it grows without bound, as the in-memory file does); a
  write that does not fit is the I/O error of this model.
\<close>

datatype state_t = ok | eof | fail

record stream =
  content :: "byte list"
  pos :: nat
  state :: state_t
  capacity :: "nat option"

text \<open>
  Modelled from the spec: ``Position: unsigned offset; a sentinel max value denotes
  unknown/unbounded end'', the largest 64-bit value.
\<close>

definition fpos_max :: nat where
  "fpos_max = 2 ^ 64 - 1"

text \<open>Modelled from the spec: \<^verbatim>\<open>basic::ok()\<close>, the state test of the stream abstraction.\<close>

definition is_ok :: "stream \<Rightarrow> bool" where
  "is_ok s = (state s = ok)"

text \<open>
  Modelled from the spec: \<^verbatim>\<open>read(dst, n)\<close>. ``Reading past available data returns fewer
  bytes and sets eof (not fail)''; ``every operation checks the state before side effects''.
\<close>

definition read :: "nat \<Rightarrow> stream \<Rightarrow> byte list \<times> stream" where
  "read n s =
     (if state s \<noteq> ok then ([], s)
      else let bs = take n (drop (pos s) (content s))
           in (bs, s\<lparr>pos := pos s + length bs,
                      state := (if length bs < n then eof else ok)\<rparr>))"

text \<open>
  Modelled from the spec: how many of \<open>n\<close> bytes the backing store accepts at the current
  position (the platform collaborator reports writes ``with byte counts and
  success/failure'').
\<close>

definition room :: "stream \<Rightarrow> nat \<Rightarrow> nat" where
  "room s n = (case capacity s of None \<Rightarrow> n | Some c \<Rightarrow> min n (c - pos s))"

text \<open>
  Modelled from the spec: the store after \<open>bs\<close> has been written at the current position,
  over what was there (a gap before the position is zero-filled).
\<close>

definition put :: "byte list \<Rightarrow> stream \<Rightarrow> byte list" where
  "put bs s =
     (let c = content s @ replicate (pos s - length (content s)) 0
      in take (pos s) c @ bs @ drop (pos s + length bs) c)"

text \<open>
  Modelled from the spec: \<^verbatim>\<open>write(src, n)\<close> returns the bytes written; ``I/O errors set
  fail'', and a stream that is not ok performs no side effect. (\<open>write\<close> is a keyword
  of Isabelle, hence the suffix.)
\<close>

definition write_buf :: "byte list \<Rightarrow> stream \<Rightarrow> nat \<times> stream" where
  "write_buf bs s =
     (if state s \<noteq> ok then (0, s)
      else let m = room s (length bs)
           in (m, s\<lparr>content := put (take m bs) s, pos := pos s + m,
                     state := (if m < length bs then fail else ok)\<rparr>))"

text \<open>
  Modelled from the spec: \<^verbatim>\<open>seek(pos)\<close> returns the new position, \<^verbatim>\<open>fpos_max\<close> for none. A
  failed stream stays as it is (fail is sticky); a target behind the end of the store is
  an error; a successful seek leaves the stream ok.
\<close>

definition seek :: "nat \<Rightarrow> stream \<Rightarrow> nat \<times> stream" where
  "seek p s =
     (if state s = fail \<or> length (content s) < p then (fpos_max, s\<lparr>state := fail\<rparr>)
      else (p, s\<lparr>pos := p, state := ok\<rparr>))"

text \<open>Modelled from the spec: \<^verbatim>\<open>tell()\<close>.\<close>

definition tell :: "stream \<Rightarrow> nat" where
  "tell s = pos s"

text \<open>Modelled from the spec: \<^verbatim>\<open>skip(n)\<close>, reading \<open>n\<close> bytes and dropping them.\<close>

definition skip :: "nat \<Rightarrow> stream \<Rightarrow> stream" where
  "skip n s = snd (read n s)"

text \<open>
  Modelled from the spec: typed extraction and insertion of a fixed-size value
  (\<^verbatim>\<open>stream >> x\<close>, \<^verbatim>\<open>stream << x\<close>), ``built generically atop read/write, each checking
  state before and after''. The extracted value is \<open>None\<close> exactly when the stream is not
  ok afterwards; the source never uses the variable in that case.
\<close>

definition read_data :: "stream \<Rightarrow> 'a::len word option \<times> stream" where
  "read_data s =
     (case read (sizeof TYPE('a)) s of
        (bs, s') \<Rightarrow> (if state s' = ok then Some (bytes_word bs) else None, s'))"

definition write_data :: "'a::len word \<Rightarrow> stream \<Rightarrow> stream" where
  "write_data w s = snd (write_buf (word_bytes w) s)"

text \<open>Modelled from the spec: \<^verbatim>\<open>write_array(data, sizeof(char), n)\<close>, a write of \<open>n\<close> bytes.\<close>

definition write_array :: "byte list \<Rightarrow> stream \<Rightarrow> stream" where
  "write_array bs s = snd (write_buf bs s)"

text \<open>
  Modelled from the spec: \<^verbatim>\<open>memory_file\<close>, the in-memory backing store over a growable
  buffer, as its default constructor leaves it.
\<close>

definition memory_file :: stream where
  "memory_file = \<lparr>content = [], pos = 0, state = ok, capacity = None\<rparr>"

text \<open>
  Modelled from the spec: \<^verbatim>\<open>write_stream(src)\<close>, which is not among the sources and which
  the specification does not describe; it copies the source stream from its position to
  its end into the stream.
\<close>

definition write_stream :: "stream \<Rightarrow> stream \<Rightarrow> stream" where
  "write_stream src s =
     (case read (length (content src) - pos src) src of (bs, src') \<Rightarrow> snd (write_buf bs s))"

subsection \<open>The limiter view\<close>

text \<open>
  Modelled from the spec (section 4.2): \<^verbatim>\<open>limiter(parent, max_bytes)\<close>. ``read stops
  delivering data once max_bytes is consumed (sets eof thereafter, even if parent has
  more); skip(n) is clamped to the remaining budget and never advances past the limit.''
  The view has a state of its own; \<open>read_limit\<close> is the remaining budget, the member the
  source reads in \<^verbatim>\<open>limiter.skip(limiter.read_limit)\<close>.
\<close>

record limiter =
  source :: stream
  read_limit :: nat
  l_state :: state_t

definition limiter_new :: "stream \<Rightarrow> nat \<Rightarrow> limiter" where
  "limiter_new s n = \<lparr>source = s, read_limit = n, l_state = state s\<rparr>"

definition limiter_read :: "nat \<Rightarrow> limiter \<Rightarrow> byte list \<times> limiter" where
  "limiter_read n l =
     (if l_state l \<noteq> ok then ([], l)
      else case read (min n (read_limit l)) (source l) of
        (bs, s') \<Rightarrow>
          (bs, \<lparr>source = s', read_limit = read_limit l - length bs,
                l_state = (if state s' \<noteq> ok then state s'
                           else if length bs < n then eof else ok)\<rparr>))"

definition limiter_skip :: "nat \<Rightarrow> limiter \<Rightarrow> limiter" where
  "limiter_skip n l = snd (limiter_read n l)"

subsection \<open>The streams of the C++ standard library\<close>

text \<open>
  Every function of \<^verbatim>\<open>idrec.hpp\<close> has an overload on \<^verbatim>\<open>std::istream\<close> or
  \<^verbatim>\<open>std::ostream\<close>. The standard library is not part of the repository; its members are
  modelled on the same stream, as the C++ standard describes them. \<open>ok\<close> stands for
  \<^verbatim>\<open>goodbit\<close>, \<open>eof\<close> for \<^verbatim>\<open>eofbit\<close> alone, \<open>fail\<close> for a state with \<^verbatim>\<open>failbit\<close> or
  \<^verbatim>\<open>badbit\<close>. A member called on a stream that is not good sets \<^verbatim>\<open>failbit\<close> and does
  nothing else.
\<close>

definition good :: "stream \<Rightarrow> bool" where
  "good s = (state s = ok)"

definition failed :: "stream \<Rightarrow> bool" where
  "failed s = (state s = fail)"

text \<open>\<^verbatim>\<open>istream::read\<close>: a short read sets \<^verbatim>\<open>eofbit | failbit\<close>.\<close>

definition istream_read :: "nat \<Rightarrow> stream \<Rightarrow> byte list \<times> stream" where
  "istream_read n s =
     (if state s \<noteq> ok then ([], s\<lparr>state := fail\<rparr>)
      else let bs = take n (drop (pos s) (content s))
           in (bs, s\<lparr>pos := pos s + length bs,
                      state := (if length bs < n then fail else ok)\<rparr>))"

text \<open>\<^verbatim>\<open>istream::ignore\<close>: reaching the end sets \<^verbatim>\<open>eofbit\<close> only.\<close>

definition istream_ignore :: "nat \<Rightarrow> stream \<Rightarrow> stream" where
  "istream_ignore n s =
     (if state s \<noteq> ok then s\<lparr>state := fail\<rparr>
      else let k = min n (length (content s) - pos s)
           in s\<lparr>pos := pos s + k, state := (if k < n then eof else ok)\<rparr>)"

text \<open>\<^verbatim>\<open>tellg\<close> and \<^verbatim>\<open>tellp\<close>: the position, or \<open>-1\<close> on a stream that is not good.\<close>

definition tellg :: "stream \<Rightarrow> int \<times> stream" where
  "tellg s = (if state s \<noteq> ok then (- 1, s\<lparr>state := fail\<rparr>) else (int (pos s), s))"

definition tellp :: "stream \<Rightarrow> int \<times> stream" where
  "tellp s = (if state s \<noteq> ok then (- 1, s\<lparr>state := fail\<rparr>) else (int (pos s), s))"

text \<open>
  \<^verbatim>\<open>seekg\<close> clears \<^verbatim>\<open>eofbit\<close> first; both seeks do nothing if \<^verbatim>\<open>fail()\<close> holds and set
  \<^verbatim>\<open>failbit\<close> if the position is not one of the store.
\<close>

definition seekg :: "int \<Rightarrow> stream \<Rightarrow> stream" where
  "seekg p s =
     (if state s = fail then s
      else if 0 \<le> p \<and> nat p \<le> length (content s) then s\<lparr>pos := nat p, state := ok\<rparr>
      else s\<lparr>state := fail\<rparr>)"

definition seekp :: "int \<Rightarrow> stream \<Rightarrow> stream" where
  "seekp p s =
     (if state s = fail then s
      else if 0 \<le> p \<and> nat p \<le> length (content s) then s\<lparr>pos := nat p\<rparr>
      else s\<lparr>state := fail\<rparr>)"

text \<open>\<^verbatim>\<open>ostream::write\<close>: bytes the buffer does not accept set \<^verbatim>\<open>badbit\<close>.\<close>

definition ostream_write :: "byte list \<Rightarrow> stream \<Rightarrow> stream" where
  "ostream_write bs s =
     (if state s \<noteq> ok then s\<lparr>state := fail\<rparr>
      else let m = room s (length bs)
           in s\<lparr>content := put (take m bs) s, pos := pos s + m,
                 state := (if m < length bs then fail else ok)\<rparr>)"

section \<open>The functions of idrec.hpp\<close>

subsection \<open>ignore\<close>

text \<open>
  \<^verbatim>\<open>ignore(stdex::stream::basic&)\<close>: read the record size, add the padding to it in
  \<^verbatim>\<open>T_SIZE\<close>, skip that many bytes. The result is the returned flag and the stream.
\<close>

definition ignore_basic :: "'sz::len word \<Rightarrow> stream \<Rightarrow> bool \<times> stream" where
  "ignore_basic ALIGN s =
     (case read_data s of
        (None, s1) \<Rightarrow> (False, s1)
      | (Some sz, s1) \<Rightarrow>
          let sz' = sz + padding ALIGN sz;
              s2 = skip (unat sz') s1
          in if \<not> is_ok s2 then (False, s2) else (True, s2))"

text \<open>\<^verbatim>\<open>ignore(std::istream&)\<close>.\<close>

definition ignore_istream :: "'sz::len word \<Rightarrow> stream \<Rightarrow> bool \<times> stream" where
  "ignore_istream ALIGN s =
     (case istream_read (sizeof TYPE('sz)) s of
        (bs, s1) \<Rightarrow>
          if \<not> good s1 then (False, s1)
          else let sz = (bytes_word bs :: 'sz word);
                   sz' = sz + padding ALIGN sz;
                   s2 = istream_ignore (unat sz') s1
               in if \<not> good s2 then (False, s2) else (True, s2))"

subsection \<open>open and close\<close>

text \<open>
  \<^verbatim>\<open>open(stdex::stream::basic_file&, id)\<close> writes the ID and a zero of type \<^verbatim>\<open>T_SIZE\<close> and
  returns the position it started at. It tests nothing.
\<close>

definition open_file :: "'sz::len itself \<Rightarrow> 'id::len word \<Rightarrow> stream \<Rightarrow> nat \<times> stream" where
  "open_file t rid s =
     (let start = tell s;
          s1 = write_data rid s;
          s2 = write_data (0 :: 'sz word) s1
      in (start, s2))"

text \<open>
  \<^verbatim>\<open>open(std::ostream&, id)\<close> returns \<open>-1\<close> if the stream has failed before the ID or
  before the placeholder is written.
\<close>

definition open_ostream :: "'sz::len itself \<Rightarrow> 'id::len word \<Rightarrow> stream \<Rightarrow> int \<times> stream" where
  "open_ostream t rid s =
     (case tellp s of
        (start, s0) \<Rightarrow>
          if failed s0 then (- 1, s0)
          else let s1 = ostream_write (word_bytes rid) s0
               in if failed s1 then (- 1, s1)
                  else let s2 = ostream_write (word_bytes (0 :: 'sz word)) s1
                       in (start, s2))"

text \<open>
  \<^verbatim>\<open>close(stdex::stream::basic_file&, start)\<close>. The size is the difference of two 64-bit
  positions cast to \<^verbatim>\<open>T_SIZE\<close>; \<open>word_of_int\<close> is that cast, for a \<^verbatim>\<open>T_SIZE\<close> of at most
  64 bits.
\<close>

definition close_file ::
  "'id::len itself \<Rightarrow> 'sz::len word \<Rightarrow> stream \<Rightarrow> nat \<Rightarrow> nat \<times> stream" where
  "close_file t ALIGN s start =
     (let e = tell s;
          sz = (word_of_int (int e - int start - int (sizeof TYPE('id)) - int (sizeof TYPE('sz)))
                  :: 'sz word);
          remainder = padding ALIGN sz;
          s1 = (if remainder \<noteq> 0 then write_array (replicate (unat remainder) 0) s else s);
          e1 = (if remainder \<noteq> 0 then e + unat remainder else e)
      in if \<not> is_ok s1 then (fpos_max, s1)
         else let s2 = snd (seek (start + sizeof TYPE('id)) s1);
                  s3 = write_data sz s2;
                  s4 = snd (seek e1 s3)
              in (e1, s4))"

text \<open>\<^verbatim>\<open>close(std::ostream&, start)\<close>.\<close>

definition close_ostream ::
  "'id::len itself \<Rightarrow> 'sz::len word \<Rightarrow> stream \<Rightarrow> int \<Rightarrow> int \<times> stream" where
  "close_ostream t ALIGN s start =
     (case tellp s of
        (e, s0) \<Rightarrow>
          let sz = (word_of_int (e - start - int (sizeof TYPE('id)) - int (sizeof TYPE('sz)))
                      :: 'sz word);
              remainder = padding ALIGN sz;
              s1 = (if remainder \<noteq> 0 then ostream_write (replicate (unat remainder) 0) s0
                    else s0);
              e1 = (if remainder \<noteq> 0 then e + int (unat remainder) else e)
          in if failed s1 then (- 1, s1)
             else let s2 = seekp (start + int (sizeof TYPE('id))) s1;
                      s3 = ostream_write (word_bytes sz) s2;
                      s4 = seekp e1 s3
                  in (e1, s4))"

subsection \<open>The record adapter\<close>

text \<open>
  \<^verbatim>\<open>record<T, T_ID, ID, T_SIZE, ALIGN>\<close> wraps a reference to the data and calls the
  \<^verbatim>\<open>operator <<\<close> or \<^verbatim>\<open>operator >>\<close> of \<^verbatim>\<open>T\<close>, code of the user of the library.

  The serializer of \<^verbatim>\<open>T\<close> is a parameter \<open>ser\<close>, any function on the stream.

  The deserializer of \<^verbatim>\<open>T\<close> is a program over the reading interface of a stream: it
  returns a value, gives up and marks the stream failed, or asks for \<open>n\<close> bytes and goes
  on with the bytes it got, which are fewer than \<open>n\<close> at the end of the data.
\<close>

datatype 'a deser = Done 'a | Abort | Get nat "byte list \<Rightarrow> 'a deser"

text \<open>The deserializer on a limiter (\<^verbatim>\<open>limiter >> r.data\<close>).\<close>

primrec run_limiter :: "'a deser \<Rightarrow> limiter \<Rightarrow> 'a option \<times> limiter" where
  "run_limiter (Done a) l = (Some a, l)"
| "run_limiter Abort l = (None, l\<lparr>l_state := fail\<rparr>)"
| "run_limiter (Get n k) l = (case limiter_read n l of (bs, l') \<Rightarrow> run_limiter (k bs) l')"

text \<open>The deserializer on a \<^verbatim>\<open>std::istream\<close> (\<^verbatim>\<open>stream >> r.data\<close>).\<close>

primrec run_istream :: "'a deser \<Rightarrow> stream \<Rightarrow> 'a option \<times> stream" where
  "run_istream (Done a) s = (Some a, s)"
| "run_istream Abort s = (None, s\<lparr>state := fail\<rparr>)"
| "run_istream (Get n k) s = (case istream_read n s of (bs, s') \<Rightarrow> run_istream (k bs) s')"

text \<open>The deserializer on a plain list of bytes: what it decodes from exactly these bytes.\<close>

primrec run_bytes :: "'a deser \<Rightarrow> byte list \<Rightarrow> 'a option" where
  "run_bytes (Done a) bs = Some a"
| "run_bytes Abort bs = None"
| "run_bytes (Get n k) bs = run_bytes (k (take n bs)) (drop n bs)"

text \<open>
  \<^verbatim>\<open>operator <<(stdex::stream::basic_file&, record)\<close>: open, serialize, close.
\<close>

definition record_write_file ::
  "'id::len word \<Rightarrow> 'sz::len word \<Rightarrow> (stream \<Rightarrow> stream) \<Rightarrow> stream \<Rightarrow> stream" where
  "record_write_file ID ALIGN ser s =
     (case open_file TYPE('sz) ID s of
        (start, s1) \<Rightarrow>
          if \<not> is_ok s1 then s1
          else let s2 = ser s1
               in snd (close_file TYPE('id) ALIGN s2 start))"

text \<open>
  \<^verbatim>\<open>operator <<(stdex::stream::basic&, record)\<close>: the record is built in a temporary
  \<^verbatim>\<open>memory_file\<close>, which is rewound and copied to the stream.
\<close>

definition record_write_basic ::
  "'id::len word \<Rightarrow> 'sz::len word \<Rightarrow> (stream \<Rightarrow> stream) \<Rightarrow> stream \<Rightarrow> stream" where
  "record_write_basic ID ALIGN ser s =
     (case open_file TYPE('sz) ID memory_file of
        (start, t1) \<Rightarrow>
          if \<not> is_ok t1 then s
          else let t2 = ser t1;
                   t3 = snd (close_file TYPE('id) ALIGN t2 start);
                   t4 = snd (seek 0 t3)
               in write_stream t4 s)"

text \<open>\<^verbatim>\<open>operator <<(std::ostream&, record)\<close>.\<close>

definition record_write_ostream ::
  "'id::len word \<Rightarrow> 'sz::len word \<Rightarrow> (stream \<Rightarrow> stream) \<Rightarrow> stream \<Rightarrow> stream" where
  "record_write_ostream ID ALIGN ser s =
     (case open_ostream TYPE('sz) ID s of
        (start, s1) \<Rightarrow>
          if failed s1 then s1
          else let s2 = ser s1
               in snd (close_ostream TYPE('id) ALIGN s2 start))"

text \<open>
  \<^verbatim>\<open>operator >>(stdex::stream::basic_file&, record)\<close>: read the size, decode from a limiter
  of that many bytes, then seek to \<^verbatim>\<open>start + size\<close>, where the padding has been added to
  \<^verbatim>\<open>size\<close> in \<^verbatim>\<open>T_SIZE\<close>. The first component is the data the deserializer stored, if any.
\<close>

definition record_read_file :: "'sz::len word \<Rightarrow> 'a deser \<Rightarrow> stream \<Rightarrow> 'a option \<times> stream" where
  "record_read_file ALIGN d s =
     (case read_data s of
        (None, s1) \<Rightarrow> (None, s1)
      | (Some sz, s1) \<Rightarrow>
          let start = tell s1
          in case run_limiter d (limiter_new s1 (unat sz)) of
               (v, l) \<Rightarrow>
                 if l_state l = fail then (v, source l)
                 else let sz' = sz + padding ALIGN sz
                      in (v, snd (seek (start + unat sz') (source l))))"

text \<open>
  \<^verbatim>\<open>operator >>(stdex::stream::basic&, record)\<close>: the same without seeking; the rest of the
  budget and the padding are skipped.
\<close>

definition record_read_basic :: "'sz::len word \<Rightarrow> 'a deser \<Rightarrow> stream \<Rightarrow> 'a option \<times> stream" where
  "record_read_basic ALIGN d s =
     (case read_data s of
        (None, s1) \<Rightarrow> (None, s1)
      | (Some sz, s1) \<Rightarrow>
          case run_limiter d (limiter_new s1 (unat sz)) of
            (v, l) \<Rightarrow>
              if l_state l = fail then (v, source l)
              else let l' = limiter_skip (read_limit l) l
                   in (v, skip (unat (padding ALIGN sz)) (source l')))"

text \<open>
  \<^verbatim>\<open>operator >>(std::istream&, record)\<close>: the deserializer reads from the stream itself.
  The source says so: ``TODO: operator >> should not read past the record data! Make a
  size limited stream and read from it instead.''
\<close>

definition record_read_istream :: "'sz::len word \<Rightarrow> 'a deser \<Rightarrow> stream \<Rightarrow> 'a option \<times> stream" where
  "record_read_istream ALIGN d s =
     (case istream_read (sizeof TYPE('sz)) s of
        (bs, s1) \<Rightarrow>
          if \<not> good s1 then (None, s1)
          else let sz = (bytes_word bs :: 'sz word)
               in case tellg s1 of
                    (start, s1') \<Rightarrow>
                      case run_istream d s1' of
                        (v, s2) \<Rightarrow>
                          if \<not> good s2 then (v, s2)
                          else let sz' = sz + padding ALIGN sz
                               in (v, seekg (start + int (unat sz')) s2))"

section \<open>Notions used in the statements\<close>

text \<open>The value of type \<^verbatim>\<open>T_SIZE\<close> stored at the position of the stream.\<close>

definition size_at :: "stream \<Rightarrow> 'sz::len word" where
  "size_at s = bytes_word (take (sizeof TYPE('sz)) (drop (pos s) (content s)))"

text \<open>The backing store has room for \<open>n\<close> more bytes at the position: a write of \<open>n\<close> bytes
  succeeds.\<close>

definition accepts :: "stream \<Rightarrow> nat \<Rightarrow> bool" where
  "accepts s n = (case capacity s of None \<Rightarrow> True | Some c \<Rightarrow> pos s + n \<le> c)"

text \<open>The chunk layout of the specification (section 6):
  \<^verbatim>\<open>ID | SIZE | DATA (SIZE bytes) | PAD (zero bytes)\<close>, for the data \<open>d\<close>.\<close>

definition chunk_bytes :: "'id::len word \<Rightarrow> 'sz::len word \<Rightarrow> byte list \<Rightarrow> byte list" where
  "chunk_bytes rid ALIGN d =
     (let sz = (of_nat (length d) :: 'sz word)
      in word_bytes rid @ word_bytes sz @ d @ replicate (unat (padding ALIGN sz)) 0)"

text \<open>The bytes a limiter can still deliver.\<close>

definition window :: "limiter \<Rightarrow> byte list" where
  "window l = take (read_limit l) (drop (pos (source l)) (content (source l)))"

text \<open>A limiter over an ok stream that holds the whole budget; the view is at its end only
  when the budget is used up.\<close>

definition lim_inv :: "limiter \<Rightarrow> bool" where
  "lim_inv l \<longleftrightarrow>
     state (source l) = ok
   \<and> pos (source l) + read_limit l \<le> length (content (source l))
   \<and> (l_state l = ok \<or> l_state l = eof \<and> read_limit l = 0)"

text \<open>
  The data \<open>d\<close> makes a chunk whose size plus padding is a value of \<^verbatim>\<open>T_SIZE\<close>.
\<close>

definition chunk_fits :: "'sz::len word \<Rightarrow> byte list \<Rightarrow> bool" where
  "chunk_fits ALIGN d \<longleftrightarrow>
     length d + unat (padding ALIGN (of_nat (length d) :: 'sz word)) < 2 ^ LENGTH('sz)"

text \<open>A sequence of chunks, each given by its ID and its data, laid out one after the other.\<close>

definition chunks_bytes :: "'sz::len word \<Rightarrow> ('id::len word \<times> byte list) list \<Rightarrow> byte list" where
  "chunks_bytes ALIGN cs = concat (map (\<lambda>(i, d). chunk_bytes i ALIGN d) cs)"

section \<open>Byte images\<close>

lemma length_to_bytes [simp]: "length (to_bytes n v) = n"
  by (induction n arbitrary: v) simp_all

lemma to_bytes_numeral [simp]:
  "to_bytes (numeral k) v = of_nat (v mod 256) # to_bytes (pred_numeral k) (v div 256)"
  using to_bytes.simps(2) [of "pred_numeral k" v] by (simp only: numeral_eq_Suc [of k])

lemma from_to_bytes: "from_bytes (to_bytes n v) = v mod 256 ^ n"
proof (induction n arbitrary: v)
  case 0
  show ?case by simp
next
  case (Suc n)
  have "unat (of_nat (v mod 256) :: byte) = v mod 256"
    by (simp add: unat_of_nat)
  then have "from_bytes (to_bytes (Suc n) v) = v mod 256 + 256 * ((v div 256) mod 256 ^ n)"
    by (simp add: Suc.IH)
  also have "\<dots> = v mod 256 ^ Suc n"
    by (simp add: mod_mult2_eq)
  finally show ?case .
qed

lemma length_word_bytes [simp]: "length (word_bytes (w :: 'a::len word)) = sizeof TYPE('a)"
  by (simp add: word_bytes_def)

lemma sizeof_covers: "LENGTH('a::len) \<le> 8 * sizeof TYPE('a)"
  unfolding sizeof_def by presburger

lemma sizeof_pos: "0 < sizeof TYPE('a::len)"
  using sizeof_covers [where 'a = 'a] by (cases "sizeof TYPE('a)") simp_all

lemma bytes_word_bytes [simp]: "bytes_word (word_bytes w) = (w :: 'a::len word)"
proof -
  have "(2::nat) ^ LENGTH('a) \<le> 2 ^ (8 * sizeof TYPE('a))"
    by (rule power_increasing [OF sizeof_covers]) simp
  also have "\<dots> = 256 ^ sizeof TYPE('a)"
    by (simp add: power_mult)
  finally have "(2::nat) ^ LENGTH('a) \<le> 256 ^ sizeof TYPE('a)" .
  with unsigned_less [of w, where 'a = nat] have "unat w < 256 ^ sizeof TYPE('a)"
    by (rule order_less_le_trans)
  then show ?thesis
    by (simp add: bytes_word_def word_bytes_def from_to_bytes)
qed

lemma unat_of_nat_fits:
  "n < 2 ^ LENGTH('a::len) \<Longrightarrow> unat (of_nat n :: 'a word) = n"
  by (simp add: unat_of_nat)

section \<open>The padding law\<close>

lemma padding_less: "ALIGN \<noteq> 0 \<Longrightarrow> padding ALIGN S < ALIGN"
  by (simp add: padding_def word_mod_less_divisor word_neq_0_conv)

lemma unat_padding:
  fixes ALIGN :: "'a::len word"
  assumes "ALIGN \<noteq> 0"
  shows "unat (padding ALIGN S) = (unat ALIGN - unat S mod unat ALIGN) mod unat ALIGN"
proof -
  have pos: "0 < unat ALIGN"
    using assms by (simp add: unat_gt_0)
  have "S mod ALIGN \<le> ALIGN"
    using assms by (simp add: word_mod_less_divisor word_neq_0_conv less_imp_le)
  then have "unat (ALIGN - S mod ALIGN) = unat ALIGN - unat (S mod ALIGN)"
    by (rule unat_sub)
  then show ?thesis
    by (simp add: padding_def unat_mod)
qed

text \<open>
  C7. For every size \<open>S\<close> of type \<^verbatim>\<open>T_SIZE\<close>, \<open>padding\<close> returns a value \<open>P\<close> with
  \<open>0 \<le> P < ALIGN\<close>, and \<open>S + P\<close>, taken as a number, is a multiple of \<open>ALIGN\<close>.
\<close>

theorem padding_law:
  fixes ALIGN S :: "'a::len word"
  assumes "ALIGN \<noteq> 0"
  shows "0 \<le> padding ALIGN S \<and> padding ALIGN S < ALIGN
       \<and> (unat S + unat (padding ALIGN S)) mod unat ALIGN = 0"
proof -
  have pos: "0 < unat ALIGN"
    using assms by (simp add: unat_gt_0)
  define a where "a = unat ALIGN"
  define s where "s = unat S"
  have "s mod a < a"
    using pos by (simp add: a_def)
  then have "(s + (a - s mod a) mod a) mod a = 0"
    by (metis add.commute le_add_diff_inverse2 less_imp_le mod_add_right_eq mod_self
        mod_add_left_eq)
  then show ?thesis
    using assms by (simp add: padding_less unat_padding a_def s_def)
qed

theorem padding_law_witness:
  "(4 :: 8 word) \<noteq> 0 \<and> padding (4 :: 8 word) 253 = 3
     \<and> (unat (253 :: 8 word) + unat (padding (4 :: 8 word) 253)) mod unat (4 :: 8 word) = 0"
  using padding_law [of "4 :: 8 word" 253] by (simp add: padding_def)

section \<open>Elementary facts about reading\<close>

lemma read_content [simp]: "content (snd (read n s)) = content s"
  by (simp add: read_def Let_def)

lemma read_capacity [simp]: "capacity (snd (read n s)) = capacity s"
  by (simp add: read_def Let_def)

lemma read_pos_le: "pos s \<le> pos (snd (read n s))"
  by (simp add: read_def Let_def)

lemma read_fits:
  assumes "state s = ok" "pos s + n \<le> length (content s)"
  shows "read n s = (take n (drop (pos s) (content s)), s\<lparr>pos := pos s + n\<rparr>)"
  using assms by (simp add: read_def Let_def min_def)

lemma read_ok_after:
  assumes "state (snd (read n s)) = ok" "0 < n"
  shows "state s = ok \<and> pos s + n \<le> length (content s)"
proof -
  have st: "state s = ok"
    using assms(1) by (cases "state s = ok") (simp_all add: read_def)
  have "\<not> length (take n (drop (pos s) (content s))) < n"
    using assms(1) st by (auto simp: read_def Let_def split: if_splits)
  then have "pos s + n \<le> length (content s)"
    using assms(2) by (simp add: min_def split: if_splits)
  with st show ?thesis by simp
qed

lemma read_data_Some:
  assumes "read_data s = (Some (w :: 'a::len word), s1)"
  shows "state s = ok \<and> pos s + sizeof TYPE('a) \<le> length (content s)
       \<and> w = bytes_word (take (sizeof TYPE('a)) (drop (pos s) (content s)))
       \<and> s1 = s\<lparr>pos := pos s + sizeof TYPE('a)\<rparr>"
proof -
  obtain bs s' where r: "read (sizeof TYPE('a)) s = (bs, s')"
    by (cases "read (sizeof TYPE('a)) s")
  from assms r have ok': "state s' = ok" and w: "w = bytes_word bs" and s1: "s1 = s'"
    by (auto simp: read_data_def split: if_splits)
  from ok' r have fit: "state s = ok \<and> pos s + sizeof TYPE('a) \<le> length (content s)"
    using read_ok_after [of "sizeof TYPE('a)" s] sizeof_pos [where 'a = 'a] by simp
  with r w s1 show ?thesis
    by (simp add: read_fits)
qed

lemma read_data_fits:
  assumes "state s = ok" "pos s + sizeof TYPE('a) \<le> length (content s)"
  shows "read_data s = (Some (bytes_word (take (sizeof TYPE('a::len)) (drop (pos s) (content s))) :: 'a word),
           s\<lparr>pos := pos s + sizeof TYPE('a)\<rparr>)"
  using assms by (simp add: read_data_def read_fits)

lemma read_data_content [simp]: "content (snd (read_data s)) = content s"
  unfolding read_data_def by (cases "read (sizeof TYPE('a)) s") (metis (no_types, lifting) case_prod_conv read_content snd_conv)

lemma read_data_pos_le: "pos s \<le> pos (snd (read_data s))"
  unfolding read_data_def by (cases "read (sizeof TYPE('a)) s") (metis (no_types, lifting) case_prod_conv read_pos_le snd_conv)

lemma skip_content [simp]: "content (skip n s) = content s"
  by (simp add: skip_def)

lemma skip_pos_le: "pos s \<le> pos (skip n s)"
  by (simp add: skip_def read_pos_le)

lemma skip_fits:
  assumes "state s = ok" "pos s + n \<le> length (content s)"
  shows "skip n s = s\<lparr>pos := pos s + n\<rparr>"
  using assms by (simp add: skip_def read_fits)

lemma ignore_basic_content [simp]: "content (snd (ignore_basic A s)) = content s"
proof -
  obtain r s1 where rd: "read_data s = (r :: 'a word option, s1)"
    by (cases "read_data s :: 'a word option \<times> stream")
  then have "content s1 = content s"
    using read_data_content [of s, where 'a = 'a] by simp
  with rd show ?thesis
    by (cases r) (simp_all add: ignore_basic_def Let_def)
qed

lemma ignore_basic_pos_le: "pos s \<le> pos (snd (ignore_basic A s))"
proof -
  obtain r s1 where rd: "read_data s = (r :: 'a word option, s1)"
    by (cases "read_data s :: 'a word option \<times> stream")
  then have "pos s \<le> pos s1"
    using read_data_pos_le [of s, where 'a = 'a] by simp
  with rd show ?thesis
    by (cases r) (auto simp: ignore_basic_def Let_def intro: order_trans [OF _ skip_pos_le])
qed

lemma istream_read_content [simp]: "content (snd (istream_read n s)) = content s"
  by (simp add: istream_read_def Let_def)

lemma istream_read_pos_le: "pos s \<le> pos (snd (istream_read n s))"
  by (simp add: istream_read_def Let_def)

lemma istream_read_fits:
  assumes "state s = ok" "pos s + n \<le> length (content s)"
  shows "istream_read n s = (take n (drop (pos s) (content s)), s\<lparr>pos := pos s + n\<rparr>)"
  using assms by (simp add: istream_read_def Let_def min_def)

lemma istream_read_good:
  assumes "good (snd (istream_read n s))" "0 < n"
  shows "state s = ok \<and> pos s + n \<le> length (content s)"
proof -
  have st: "state s = ok"
    using assms(1) by (cases "state s = ok") (simp_all add: istream_read_def good_def)
  have "\<not> length (take n (drop (pos s) (content s))) < n"
    using assms(1) st by (auto simp: istream_read_def good_def Let_def split: if_splits)
  then have "pos s + n \<le> length (content s)"
    using assms(2) by (simp add: min_def split: if_splits)
  with st show ?thesis by simp
qed

lemma istream_ignore_content [simp]: "content (istream_ignore n s) = content s"
  by (simp add: istream_ignore_def Let_def)

lemma istream_ignore_pos_le: "pos s \<le> pos (istream_ignore n s)"
  by (simp add: istream_ignore_def Let_def)

lemma istream_ignore_fits:
  assumes "state s = ok" "pos s + n \<le> length (content s)"
  shows "istream_ignore n s = s\<lparr>pos := pos s + n\<rparr>"
  using assms by (simp add: istream_ignore_def Let_def min_def)

lemma ignore_istream_content [simp]: "content (snd (ignore_istream A s)) = content s"
proof -
  obtain bs s1 where rd: "istream_read (sizeof TYPE('a)) s = (bs, s1)"
    by (cases "istream_read (sizeof TYPE('a)) s")
  then have "content s1 = content s"
    using istream_read_content [of "sizeof TYPE('a)" s] by simp
  with rd show ?thesis
    by (simp add: ignore_istream_def Let_def)
qed

lemma ignore_istream_pos_le: "pos s \<le> pos (snd (ignore_istream A s))"
proof -
  obtain bs s1 where rd: "istream_read (sizeof TYPE('a)) s = (bs, s1)"
    by (cases "istream_read (sizeof TYPE('a)) s")
  then have "pos s \<le> pos s1"
    using istream_read_pos_le [of s "sizeof TYPE('a)"] by simp
  with rd show ?thesis
    by (auto simp: ignore_istream_def Let_def intro: order_trans [OF _ istream_ignore_pos_le])
qed

lemma tellg_content [simp]: "content (snd (tellg s)) = content s"
  by (simp add: tellg_def)

lemma tellg_pos [simp]: "pos (snd (tellg s)) = pos s"
  by (simp add: tellg_def)

section \<open>find\<close>

text \<open>
  \<^verbatim>\<open>find(stdex::stream::basic_file&, id, end)\<close>: while the position is before \<open>end\<close>
  (or \<open>end\<close> is \<^verbatim>\<open>fpos_max\<close>), read an ID; stop with \<open>False\<close> if the stream is not ok,
  with \<open>True\<close> if the ID is the one sought; otherwise call \<^verbatim>\<open>ignore\<close>, whose result is
  dropped, and go on. Every round that goes on has read an ID, so the loop ends with
  the data: the function is total.
\<close>

function find_file :: "'sz::len word \<Rightarrow> 'id::len word \<Rightarrow> nat \<Rightarrow> stream \<Rightarrow> bool \<times> stream" where
  "find_file ALIGN rid e s =
     (if e = fpos_max \<or> tell s < e then
        (case read_data s of
           (None, s1) \<Rightarrow> (False, s1)
         | (Some i, s1) \<Rightarrow>
             if i = rid then (True, s1)
             else find_file ALIGN rid e (snd (ignore_basic ALIGN s1)))
      else (False, s))"
  by pat_completeness auto
termination
proof (relation "measure (\<lambda>(ALIGN, rid, e, s). length (content s) - pos s)", goal_cases)
  case 1
  show ?case by simp
next
  case (2 ALIGN rid e s x s1 i)
  then have rd: "read_data s = (Some i, s1)" by simp
  note f = read_data_Some [OF rd]
  have "pos s1 \<le> pos (snd (ignore_basic ALIGN s1))"
    by (rule ignore_basic_pos_le)
  moreover have "pos s < pos s1" "pos s1 \<le> length (content s)" "content s1 = content s"
    using f sizeof_pos by auto
  ultimately show ?case
    by simp
qed

text \<open>
  \<^verbatim>\<open>find(std::istream&, id, end)\<close>. \<^verbatim>\<open>tellg\<close> is called only if \<open>end\<close> is not \<open>-1\<close>.
\<close>

lemma find_istream_step:
  assumes rd: "istream_read (sizeof TYPE('id::len)) s0 = (bs, s1)" and g: "good s1"
    and s0: "content s0 = content s" "pos s0 = pos s"
  shows "length (content (snd (ignore_istream ALIGN s1))) - pos (snd (ignore_istream ALIGN s1))
           < length (content s) - pos s"
proof -
  from g rd have f: "state s0 = ok \<and> pos s0 + sizeof TYPE('id) \<le> length (content s0)"
    using istream_read_good [of "sizeof TYPE('id)" s0] sizeof_pos [where 'a = 'id] by simp
  with rd have "s1 = s0\<lparr>pos := pos s0 + sizeof TYPE('id)\<rparr>"
    by (simp add: istream_read_fits)
  then have "pos s < pos s1" "pos s1 \<le> length (content s)" "content s1 = content s"
    using f s0 sizeof_pos [where 'a = 'id] by auto
  moreover have "pos s1 \<le> pos (snd (ignore_istream ALIGN s1))"
    by (rule ignore_istream_pos_le)
  ultimately show ?thesis
    by simp
qed

function find_istream :: "'sz::len word \<Rightarrow> 'id::len word \<Rightarrow> int \<Rightarrow> stream \<Rightarrow> bool \<times> stream" where
  "find_istream ALIGN rid e s =
     (if e = - 1 \<or> fst (tellg s) < e then
        (case istream_read (sizeof TYPE('id)) (if e = - 1 then s else snd (tellg s)) of
           (bs, s1) \<Rightarrow>
             if \<not> good s1 then (False, s1)
             else if (bytes_word bs :: 'id word) = rid then (True, s1)
             else find_istream ALIGN rid e (snd (ignore_istream ALIGN s1)))
      else (False, snd (tellg s)))"
  by pat_completeness auto
termination
proof (relation "measure (\<lambda>(ALIGN, rid, e, s). length (content s) - pos s)", goal_cases)
  case 1
  show ?case by simp
next
  case (2 ALIGN rid e s bs s1)
  define s0 where "s0 = (if e = - 1 then s else snd (tellg s))"
  have s0: "content s0 = content s" "pos s0 = pos s"
    by (simp_all add: s0_def)
  from 2 have "istream_read (length (word_bytes rid)) s0 = (bs, s1)" and "good s1"
    by (simp_all add: s0_def)
  then show ?case
    using find_istream_step [OF _ _ s0] by simp
qed

text \<open>
  The number of IDs that \<^verbatim>\<open>find(stdex::stream::basic_file&, id, end)\<close> reads: the same loop,
  counting the rounds that reach \<^verbatim>\<open>stream >> _id\<close>. The source has no such counter; it is
  here to state how many headers a search reads.
\<close>

function find_file_reads :: "'sz::len word \<Rightarrow> 'id::len word \<Rightarrow> nat \<Rightarrow> stream \<Rightarrow> nat" where
  "find_file_reads ALIGN rid e s =
     (if e = fpos_max \<or> tell s < e then
        (case read_data s of
           (None, s1) \<Rightarrow> 1
         | (Some i, s1) \<Rightarrow>
             if i = rid then 1
             else 1 + find_file_reads ALIGN rid e (snd (ignore_basic ALIGN s1)))
      else 0)"
  by pat_completeness auto
termination
proof (relation "measure (\<lambda>(ALIGN, rid, e, s). length (content s) - pos s)", goal_cases)
  case 1
  show ?case by simp
next
  case (2 ALIGN rid e s x s1 i)
  then have rd: "read_data s = (Some i, s1)" by simp
  note f = read_data_Some [OF rd]
  have "pos s1 \<le> pos (snd (ignore_basic ALIGN s1))"
    by (rule ignore_basic_pos_le)
  moreover have "pos s < pos s1" "pos s1 \<le> length (content s)" "content s1 = content s"
    using f sizeof_pos by auto
  ultimately show ?case
    by simp
qed

section \<open>ignore\<close>

lemma ignore_basic_run:
  fixes ALIGN :: "'sz::len word"
  assumes ok: "state s = ok"
    and hdr: "pos s + sizeof TYPE('sz) \<le> length (content s)"
    and k: "k = unat ((size_at s :: 'sz word) + padding ALIGN (size_at s))"
    and fits: "pos s + sizeof TYPE('sz) + k \<le> length (content s)"
  shows "ignore_basic ALIGN s = (True, s\<lparr>pos := pos s + sizeof TYPE('sz) + k\<rparr>)"
proof -
  let ?s1 = "s\<lparr>pos := pos s + sizeof TYPE('sz)\<rparr>"
  have rd: "read_data s = (Some (size_at s :: 'sz word), ?s1)"
    using ok hdr by (simp add: read_data_fits size_at_def)
  have "skip k ?s1 = ?s1\<lparr>pos := pos ?s1 + k\<rparr>"
    using ok fits by (intro skip_fits) simp_all
  then show ?thesis
    using rd ok by (simp add: ignore_basic_def k is_ok_def Let_def)
qed

lemma ignore_istream_run:
  fixes ALIGN :: "'sz::len word"
  assumes ok: "state s = ok"
    and hdr: "pos s + sizeof TYPE('sz) \<le> length (content s)"
    and k: "k = unat ((size_at s :: 'sz word) + padding ALIGN (size_at s))"
    and fits: "pos s + sizeof TYPE('sz) + k \<le> length (content s)"
  shows "ignore_istream ALIGN s = (True, s\<lparr>pos := pos s + sizeof TYPE('sz) + k\<rparr>)"
proof -
  let ?s1 = "s\<lparr>pos := pos s + sizeof TYPE('sz)\<rparr>"
  have rd: "istream_read (sizeof TYPE('sz)) s = (take (sizeof TYPE('sz)) (drop (pos s) (content s)), ?s1)"
    using ok hdr by (simp add: istream_read_fits)
  have "istream_ignore k ?s1 = ?s1\<lparr>pos := pos ?s1 + k\<rparr>"
    using ok fits by (intro istream_ignore_fits) simp_all
  then show ?thesis
    using rd ok by (simp add: ignore_istream_def k good_def size_at_def Let_def)
qed

text \<open>
  C9. In \<^verbatim>\<open>ignore\<close>, the number of bytes to skip is computed in \<^verbatim>\<open>T_SIZE\<close>: when
  \<open>S + padding S\<close> does not fit the type, both overloads skip the sum modulo
  \<open>2 ^ LENGTH('sz)\<close>, fewer bytes than DATA and PAD have.
\<close>

theorem ignore_wraps:
  fixes ALIGN :: "'sz::len word"
  assumes "ALIGN \<noteq> 0"
    and "state s = ok"
    and "S = (size_at s :: 'sz word)"
    and "pos s + sizeof TYPE('sz) + unat S + unat (padding ALIGN S) \<le> length (content s)"
    and "2 ^ LENGTH('sz) \<le> unat S + unat (padding ALIGN S)"
    and "k = (unat S + unat (padding ALIGN S)) mod 2 ^ LENGTH('sz)"
  shows "ignore_basic ALIGN s = (True, s\<lparr>pos := pos s + sizeof TYPE('sz) + k\<rparr>)
       \<and> ignore_istream ALIGN s = (True, s\<lparr>pos := pos s + sizeof TYPE('sz) + k\<rparr>)
       \<and> k < unat S + unat (padding ALIGN S)"
proof -
  have k: "k = unat (S + padding ALIGN S)"
    using assms(6) by (simp add: unat_word_ariths)
  have "k < 2 ^ LENGTH('sz)"
    using assms(6) by simp
  then have less: "k < unat S + unat (padding ALIGN S)"
    using assms(5) by simp
  then have "pos s + sizeof TYPE('sz) + k \<le> length (content s)"
    using assms(4) by simp
  then show ?thesis
    using assms(2,3,4) k less
    by (simp add: ignore_basic_run ignore_istream_run)
qed

theorem ignore_wraps_witness:
  "(4 :: 8 word) \<noteq> 0
   \<and> (2::nat) ^ LENGTH(8) \<le> unat (253 :: 8 word) + unat (padding (4 :: 8 word) 253)
   \<and> ignore_basic (4 :: 8 word) \<lparr>content = 253 # replicate 256 0, pos = 0, state = ok, capacity = None\<rparr>
       = (True, \<lparr>content = 253 # replicate 256 0, pos = 1, state = ok, capacity = None\<rparr>)
   \<and> ignore_istream (4 :: 8 word) \<lparr>content = 253 # replicate 256 0, pos = 0, state = ok, capacity = None\<rparr>
       = (True, \<lparr>content = 253 # replicate 256 0, pos = 1, state = ok, capacity = None\<rparr>)"
proof -
  let ?s = "\<lparr>content = 253 # replicate 256 0, pos = 0, state = ok, capacity = None\<rparr>"
  have S: "(253 :: 8 word) = size_at ?s"
    by (simp add: size_at_def sizeof_def bytes_word_def)
  have P: "padding (4 :: 8 word) 253 = 3"
    by (simp add: padding_def)
  show ?thesis
    using ignore_wraps [of "4 :: 8 word" ?s 253 0] S P
    by (simp add: sizeof_def)
qed

lemma chunk_253:
  "chunk_bytes (1 :: 8 word) (4 :: 8 word) (2 # replicate 252 0) = 1 # 253 # 2 # replicate 252 0 @ replicate 3 0"
proof -
  have pd: "padding (4 :: 8 word) 253 = 3" by (simp add: padding_def)
  then show ?thesis
    by (simp add: chunk_bytes_def word_bytes_def sizeof_def)
qed

text \<open>
  C6. \<^verbatim>\<open>ignore\<close> is to advance from the SIZE field past DATA and PAD. The chunk below is
  laid out as the format says, with 253 bytes of data, an 8-bit size and \<open>ALIGN = 4\<close>; it
  is 258 bytes long. From its SIZE field at position 1 both overloads return \<open>True\<close> at
  position 2, the first byte of the data, not at position 258: \<open>253 + 3\<close> is 0 in
  \<^verbatim>\<open>T_SIZE\<close>.
\<close>

theorem ignore_overflow_example:
  "ignore_basic (4 :: 8 word)
     \<lparr>content = chunk_bytes (1 :: 8 word) (4 :: 8 word) (2 # replicate 252 0), pos = 1, state = ok, capacity = None\<rparr>
   = (True, \<lparr>content = chunk_bytes (1 :: 8 word) (4 :: 8 word) (2 # replicate 252 0), pos = 2, state = ok, capacity = None\<rparr>)
   \<and> ignore_istream (4 :: 8 word)
     \<lparr>content = chunk_bytes (1 :: 8 word) (4 :: 8 word) (2 # replicate 252 0), pos = 1, state = ok, capacity = None\<rparr>
   = (True, \<lparr>content = chunk_bytes (1 :: 8 word) (4 :: 8 word) (2 # replicate 252 0), pos = 2, state = ok, capacity = None\<rparr>)
   \<and> length (chunk_bytes (1 :: 8 word) (4 :: 8 word) (2 # replicate 252 0)) = 258
   \<and> 1 + (sizeof TYPE(8) + unat (253 :: 8 word) + unat (padding (4 :: 8 word) 253)) = 258"
proof -
  have pd: "padding (4 :: 8 word) 253 = 3" by (simp add: padding_def)
  show ?thesis
    unfolding chunk_253
    by (simp add: ignore_basic_def ignore_istream_def read_data_def read_def istream_read_def
        skip_def istream_ignore_def sizeof_def bytes_word_def pd is_ok_def good_def Let_def)
qed

section \<open>Writing\<close>

lemma accepts_room: "accepts s n \<Longrightarrow> room s n = n"
  by (auto simp: accepts_def room_def split: option.splits)

lemma accepts_mono:
  "accepts s n \<Longrightarrow> capacity s' = capacity s \<Longrightarrow> pos s' + n' \<le> pos s + n \<Longrightarrow> accepts s' n'"
  by (auto simp: accepts_def split: option.splits)

lemma put_within:
  "pos s \<le> length (content s) \<Longrightarrow>
   put bs s = take (pos s) (content s) @ bs @ drop (pos s + length bs) (content s)"
  by (simp add: put_def Let_def)

lemma put_nothing: "pos s \<le> length (content s) \<Longrightarrow> put [] s = content s"
  by (simp add: put_within)

lemma length_put:
  "pos s \<le> length (content s) \<Longrightarrow> length (put bs s) = max (length (content s)) (pos s + length bs)"
  by (auto simp: put_within)

lemma put_put:
  assumes "pos s \<le> length (content s)"
  shows "put b (s\<lparr>content := put a s, pos := pos s + length a\<rparr>) = put (a @ b) s"
  using assms by (simp add: put_within min_def ac_simps)

lemma put_overwrite:
  assumes "pos s \<le> length (content s)" "length b' = length b"
  shows "put b' (s\<lparr>content := put (a @ b @ c) s, pos := pos s + length a\<rparr>) = put (a @ b' @ c) s"
  using assms by (simp add: put_within min_def ac_simps)

lemma drop_put:
  assumes "pos s \<le> length (content s)"
  shows "drop (pos s + length a) (put (a @ b) s) = b @ drop (pos s + length a + length b) (content s)"
  using assms by (simp add: put_within min_def ac_simps)

lemma take_put:
  assumes "pos s \<le> length (content s)"
  shows "take (pos s) (put a s) = take (pos s) (content s)"
  using assms by (simp add: put_within min_def)

lemma write_buf_fits:
  assumes "state s = ok" "accepts s (length bs)"
  shows "write_buf bs s = (length bs, s\<lparr>content := put bs s, pos := pos s + length bs\<rparr>)"
  using assms by (simp add: write_buf_def accepts_room Let_def)

lemma write_data_fits:
  assumes "state s = ok" "accepts s (sizeof TYPE('a))"
  shows "write_data (w :: 'a::len word) s
           = s\<lparr>content := put (word_bytes w) s, pos := pos s + sizeof TYPE('a)\<rparr>"
  using assms by (simp add: write_data_def write_buf_fits)

lemma write_array_fits:
  assumes "state s = ok" "accepts s (length bs)"
  shows "write_array bs s = s\<lparr>content := put bs s, pos := pos s + length bs\<rparr>"
  using assms by (simp add: write_array_def write_buf_fits)

lemma seek_fits:
  assumes "state s = ok" "p \<le> length (content s)"
  shows "seek p s = (p, s\<lparr>pos := p\<rparr>)"
  using assms by (simp add: seek_def)

subsection \<open>close\<close>

lemma close_file_run:
  fixes ALIGN :: "'sz::len word"
  assumes ok: "state s = ok"
    and past: "start + sizeof TYPE('id::len) + sizeof TYPE('sz) \<le> pos s"
    and within: "pos s \<le> length (content s)"
    and sz: "sz = (of_nat (pos s - start - sizeof TYPE('id) - sizeof TYPE('sz)) :: 'sz word)"
    and pad: "pad = unat (padding ALIGN sz)"
    and room: "accepts s pad"
  shows "close_file TYPE('id) ALIGN s start =
           (pos s + pad,
            s\<lparr>content := put (word_bytes sz)
                             (s\<lparr>content := put (replicate pad 0) s,
                                pos := start + sizeof TYPE('id)\<rparr>),
              pos := pos s + pad\<rparr>)"
proof -
  let ?sid = "sizeof TYPE('id)" and ?ssz = "sizeof TYPE('sz)"
  let ?s1 = "s\<lparr>content := put (replicate pad 0) s, pos := pos s + pad\<rparr>"
  let ?s2 = "?s1\<lparr>pos := start + ?sid\<rparr>"
  let ?s3 = "?s2\<lparr>content := put (word_bytes sz) ?s2, pos := pos ?s2 + ?ssz\<rparr>"
  have cast: "(word_of_int (int (tell s) - int start - int ?sid - int ?ssz) :: 'sz word) = sz"
  proof -
    have "int (tell s) - int start - int ?sid - int ?ssz = int (pos s - start - ?sid - ?ssz)"
      using past by (simp add: tell_def)
    then show ?thesis
      by (simp add: sz)
  qed
  have s1: "(if padding ALIGN sz \<noteq> 0 then write_array (replicate (unat (padding ALIGN sz)) 0) s else s) = ?s1"
  proof (cases "padding ALIGN sz = 0")
    case True
    then have "pad = 0" by (simp add: pad)
    then show ?thesis
      using True within by (simp add: put_nothing)
  next
    case False
    then show ?thesis
      using ok room by (simp add: pad write_array_fits)
  qed
  have e1: "(if padding ALIGN sz \<noteq> 0 then tell s + unat (padding ALIGN sz) else tell s) = pos s + pad"
    by (simp add: pad tell_def unat_eq_0)
  have len1: "pos s + pad \<le> length (content ?s1)"
    using within by (simp add: length_put)
  have seek1: "snd (seek (start + ?sid) ?s1) = ?s2"
    using ok past len1 by (simp add: seek_fits)
  have "accepts ?s2 ?ssz"
    using past by (intro accepts_mono [OF room]) simp_all
  then have wr: "write_data sz ?s2 = ?s3"
    using ok by (simp add: write_data_fits)
  have "pos ?s2 \<le> length (content ?s2)"
    using past len1 by simp
  then have "length (content ?s1) \<le> length (content ?s3)"
    by (simp add: length_put)
  with len1 have "pos s + pad \<le> length (content ?s3)"
    by (rule order_trans)
  then have seek2: "snd (seek (pos s + pad) ?s3) = ?s3\<lparr>pos := pos s + pad\<rparr>"
    using ok by (simp add: seek_fits)
  have "is_ok ?s1"
    using ok by (simp add: is_ok_def)
  then have "close_file TYPE('id) ALIGN s start =
      (pos s + pad, snd (seek (pos s + pad) (write_data sz (snd (seek (start + ?sid) ?s1)))))"
    unfolding close_file_def Let_def cast s1 e1 by (simp only: if_False not_True_eq_False simp_thms)
  also have "\<dots> = (pos s + pad, ?s3\<lparr>pos := pos s + pad\<rparr>)"
    by (simp only: seek1 wr seek2)
  finally show ?thesis
    by simp
qed

text \<open>
  C3 (amended). On an ok seekable stream whose position is past the header that begins
  at \<open>start\<close>, and whose store accepts the padding, \<^verbatim>\<open>close\<close> stores the number \<open>n\<close> of
  bytes written since the header, cast to \<^verbatim>\<open>T_SIZE\<close> (that is \<open>n mod 2 ^ LENGTH('sz)\<close>), in
  the placeholder, puts \<open>(ALIGN - size mod ALIGN) mod ALIGN\<close> zero bytes after the data,
  where \<open>size\<close> is the stored size, leaves everything else as it was, and returns the
  padded end, where it leaves the stream.
\<close>

theorem close_file_backpatch:
  fixes ALIGN :: "'sz::len word"
  assumes align: "ALIGN \<noteq> 0"
    and ok: "state s = ok"
    and past: "start + sizeof TYPE('id::len) + sizeof TYPE('sz) \<le> pos s"
    and within: "pos s \<le> length (content s)"
    and n: "n = pos s - start - sizeof TYPE('id) - sizeof TYPE('sz)"
    and sz: "sz = (of_nat n :: 'sz word)"
    and pad: "pad = unat (padding ALIGN sz)"
    and room: "accepts s pad"
    and r: "r = close_file TYPE('id) ALIGN s start"
  shows "fst r = pos s + pad \<and> pos (snd r) = pos s + pad \<and> state (snd r) = ok
       \<and> content (snd r) =
             take (start + sizeof TYPE('id)) (content s) @ word_bytes sz
             @ take n (drop (start + sizeof TYPE('id) + sizeof TYPE('sz)) (content s))
             @ replicate pad 0 @ drop (pos s + pad) (content s)
       \<and> unat sz = n mod 2 ^ LENGTH('sz)
       \<and> pad = (unat ALIGN - unat sz mod unat ALIGN) mod unat ALIGN"
proof -
  let ?sid = "sizeof TYPE('id)" and ?ssz = "sizeof TYPE('sz)"
  let ?c = "content s"
  let ?s2 = "s\<lparr>content := put (replicate pad 0) s, pos := start + ?sid\<rparr>"
  have run: "r = (pos s + pad, s\<lparr>content := put (word_bytes sz) ?s2, pos := pos s + pad\<rparr>)"
    unfolding r by (rule close_file_run [OF ok past within _ pad room]) (simp add: sz n)
  have c1: "put (replicate pad 0) s = take (pos s) ?c @ replicate pad 0 @ drop (pos s + pad) ?c"
    using within by (simp add: put_within)
  have le: "start + ?sid \<le> pos s" "start + ?sid + ?ssz \<le> pos s"
    using past by simp_all
  have "put (word_bytes sz) ?s2 =
          take (start + ?sid) (content ?s2) @ word_bytes sz @ drop (start + ?sid + ?ssz) (content ?s2)"
    using within le by (subst put_within) (simp_all add: c1)
  also have "take (start + ?sid) (content ?s2) = take (start + ?sid) ?c"
    using within le by (simp add: c1 min_def)
  also have "drop (start + ?sid + ?ssz) (content ?s2) =
      take n (drop (start + ?sid + ?ssz) ?c) @ replicate pad 0 @ drop (pos s + pad) ?c"
    using within le by (simp add: c1 drop_take n)
  finally have content: "put (word_bytes sz) ?s2 =
      take (start + ?sid) ?c @ word_bytes sz @ take n (drop (start + ?sid + ?ssz) ?c)
      @ replicate pad 0 @ drop (pos s + pad) ?c" .
  have 1: "fst r = pos s + pad \<and> pos (snd r) = pos s + pad \<and> state (snd r) = ok
       \<and> content (snd r) =
             take (start + ?sid) ?c @ word_bytes sz @ take n (drop (start + ?sid + ?ssz) ?c)
             @ replicate pad 0 @ drop (pos s + pad) ?c"
    using ok by (simp add: run content)
  have 2: "unat sz = n mod 2 ^ LENGTH('sz)"
    by (simp add: sz unat_of_nat)
  have 3: "pad = (unat ALIGN - unat sz mod unat ALIGN) mod unat ALIGN"
    unfolding pad by (rule unat_padding [OF align])
  from 1 2 3 show ?thesis
    by blast
qed

theorem close_file_backpatch_witness:
  "(4 :: 8 word) \<noteq> 0
   \<and> 0 + sizeof TYPE(8) + sizeof TYPE(8) \<le> (5 :: nat)
   \<and> accepts \<lparr>content = [9, 0, 1, 2, 3], pos = 5, state = ok, capacity = Some 6\<rparr> 1
   \<and> fst (close_file TYPE(8) (4 :: 8 word) \<lparr>content = [9, 0, 1, 2, 3], pos = 5, state = ok, capacity = Some 6\<rparr> 0) = 6
   \<and> pos (snd (close_file TYPE(8) (4 :: 8 word) \<lparr>content = [9, 0, 1, 2, 3], pos = 5, state = ok, capacity = Some 6\<rparr> 0)) = 6
   \<and> content (snd (close_file TYPE(8) (4 :: 8 word) \<lparr>content = [9, 0, 1, 2, 3], pos = 5, state = ok, capacity = Some 6\<rparr> 0))
       = [9, 3, 1, 2, 3, 0]"
proof -
  let ?s = "\<lparr>content = [9, 0, 1, 2, 3], pos = 5, state = ok, capacity = Some 6\<rparr>"
  have h1: "(4 :: 8 word) \<noteq> 0" by simp
  have h2: "state ?s = ok" by simp
  have h3: "0 + sizeof TYPE(8) + sizeof TYPE(8) \<le> pos ?s" by (simp add: sizeof_def)
  have h4: "pos ?s \<le> length (content ?s)" by simp
  have n: "(3 :: nat) = pos ?s - 0 - sizeof TYPE(8) - sizeof TYPE(8)" by (simp add: sizeof_def)
  have sz: "(3 :: 8 word) = of_nat 3" by simp
  have pad: "(1 :: nat) = unat (padding (4 :: 8 word) 3)" by (simp add: padding_def)
  have h5: "accepts ?s 1" by (simp add: accepts_def)
  from close_file_backpatch [OF h1 h2 h3 h4 n sz pad h5 refl] h1 h3 h5 show ?thesis
    by (simp add: sizeof_def word_bytes_def)
qed

text \<open>
  C3 as stated fails where the count does not fit \<^verbatim>\<open>T_SIZE\<close>: after 256 bytes of data and
  with an 8-bit size the stored size is 0, not 256.
\<close>

theorem close_file_backpatch_counterexample:
  "from_bytes (take (sizeof TYPE(8)) (drop (0 + sizeof TYPE(8))
      (content (snd (close_file TYPE(8) (4 :: 8 word)
         \<lparr>content = replicate 258 7, pos = 258, state = ok, capacity = None\<rparr> 0)))))
    \<noteq> 258 - 0 - sizeof TYPE(8) - sizeof TYPE(8)"
proof -
  let ?s = "\<lparr>content = replicate 258 7, pos = 258, state = ok, capacity = None\<rparr>"
  have z: "(256 :: 8 word) = 0" by simp
  have pd: "padding (4 :: 8 word) 0 = 0" by (simp add: padding_def)
  have "close_file TYPE(8) (4 :: 8 word) ?s 0 =
          (pos ?s + 0,
           ?s\<lparr>content := put (word_bytes (0 :: 8 word)) (?s\<lparr>content := put (replicate 0 0) ?s, pos := 0 + sizeof TYPE(8)\<rparr>),
              pos := pos ?s + 0\<rparr>)"
    by (rule close_file_run) (simp_all add: sizeof_def z pd accepts_def)
  then show ?thesis
    by (simp add: sizeof_def put_def word_bytes_def)
qed

subsection \<open>Writing a record\<close>

lemma length_chunk_bytes:
  "length (chunk_bytes (rid :: 'id::len word) (ALIGN :: 'sz::len word) d)
     = sizeof TYPE('id) + sizeof TYPE('sz) + length d
       + unat (padding ALIGN (of_nat (length d) :: 'sz word))"
  by (simp add: chunk_bytes_def Let_def)

lemma open_file_run:
  assumes ok: "state s = ok"
    and within: "pos s \<le> length (content s)"
    and room: "accepts s (sizeof TYPE('id::len) + sizeof TYPE('sz::len))"
  shows "open_file TYPE('sz) (rid :: 'id word) s =
           (pos s, s\<lparr>content := put (word_bytes rid @ word_bytes (0 :: 'sz word)) s,
                      pos := pos s + (sizeof TYPE('id) + sizeof TYPE('sz))\<rparr>)"
proof -
  let ?s1 = "s\<lparr>content := put (word_bytes rid) s, pos := pos s + sizeof TYPE('id)\<rparr>"
  have "accepts s (sizeof TYPE('id))"
    by (rule accepts_mono [OF room]) simp_all
  then have w1: "write_data rid s = ?s1"
    using ok by (simp add: write_data_fits)
  have "accepts ?s1 (sizeof TYPE('sz))"
    by (rule accepts_mono [OF room]) simp_all
  then have w2: "write_data (0 :: 'sz word) ?s1
      = ?s1\<lparr>content := put (word_bytes (0 :: 'sz word)) ?s1, pos := pos ?s1 + sizeof TYPE('sz)\<rparr>"
    using ok by (simp add: write_data_fits)
  have "put (word_bytes (0 :: 'sz word)) ?s1 = put (word_bytes rid @ word_bytes (0 :: 'sz word)) s"
    using put_put [OF within, of "word_bytes (0 :: 'sz word)" "word_bytes rid"] by simp
  then show ?thesis
    unfolding open_file_def Let_def w1 w2 by (simp add: tell_def add.assoc)
qed

lemma record_write_file_run:
  fixes ID :: "'id::len word" and ALIGN :: "'sz::len word"
  assumes ok: "state s = ok"
    and within: "pos s \<le> length (content s)"
    and room: "accepts s (length (chunk_bytes ID ALIGN d))"
  shows "record_write_file ID ALIGN (write_array d) s =
           s\<lparr>content := put (chunk_bytes ID ALIGN d) s,
             pos := pos s + length (chunk_bytes ID ALIGN d)\<rparr>"
proof -
  let ?sid = "sizeof TYPE('id)" and ?ssz = "sizeof TYPE('sz)"
  let ?idb = "word_bytes ID" and ?z = "word_bytes (0 :: 'sz word)"
  define sz where "sz = (of_nat (length d) :: 'sz word)"
  define pad where "pad = unat (padding ALIGN sz)"
  have len: "length (chunk_bytes ID ALIGN d) = ?sid + ?ssz + length d + pad"
    by (simp add: length_chunk_bytes sz_def pad_def)
  let ?s1 = "s\<lparr>content := put (?idb @ ?z) s, pos := pos s + (?sid + ?ssz)\<rparr>"
  let ?s2 = "s\<lparr>content := put (?idb @ ?z @ d) s, pos := pos s + (?sid + ?ssz + length d)\<rparr>"
  have "accepts s (?sid + ?ssz)"
    by (rule accepts_mono [OF room]) (simp_all add: len)
  with ok within have op: "open_file TYPE('sz) ID s = (pos s, ?s1)"
    by (rule open_file_run)
  have "accepts ?s1 (length d)"
    by (rule accepts_mono [OF room]) (simp_all add: len)
  then have "write_array d ?s1 = ?s1\<lparr>content := put d ?s1, pos := pos ?s1 + length d\<rparr>"
    using ok by (simp add: write_array_fits)
  moreover have "put d ?s1 = put ((?idb @ ?z) @ d) s"
    using put_put [OF within, of d "?idb @ ?z"] by simp
  ultimately have ser: "write_array d ?s1 = ?s2"
    by (simp add: add.assoc)
  have within2: "pos ?s2 \<le> length (content ?s2)"
    using within by (simp add: length_put)
  have sz2: "sz = (of_nat (pos ?s2 - pos s - ?sid - ?ssz) :: 'sz word)"
    by (simp add: sz_def)
  have room2: "accepts ?s2 pad"
    by (rule accepts_mono [OF room]) (simp_all add: len)
  have cl: "close_file TYPE('id) ALIGN ?s2 (pos s) =
      (pos ?s2 + pad,
       ?s2\<lparr>content := put (word_bytes sz) (?s2\<lparr>content := put (replicate pad 0) ?s2, pos := pos s + ?sid\<rparr>),
           pos := pos ?s2 + pad\<rparr>)"
    by (rule close_file_run [OF _ _ within2 sz2 pad_def room2]) (simp_all add: ok)
  have "put (replicate pad 0) ?s2 = put ((?idb @ ?z @ d) @ replicate pad 0) s"
    using put_put [OF within, of "replicate pad 0" "?idb @ ?z @ d"] by (simp add: add.assoc)
  then have "put (word_bytes sz) (?s2\<lparr>content := put (replicate pad 0) ?s2, pos := pos s + ?sid\<rparr>)
      = put (word_bytes sz) (s\<lparr>content := put (?idb @ ?z @ d @ replicate pad 0) s, pos := pos s + length ?idb\<rparr>)"
    by simp
  also have "\<dots> = put (?idb @ word_bytes sz @ d @ replicate pad 0) s"
    by (rule put_overwrite [OF within]) simp
  also have "\<dots> = put (chunk_bytes ID ALIGN d) s"
    by (simp add: chunk_bytes_def sz_def pad_def Let_def)
  finally have content: "put (word_bytes sz) (?s2\<lparr>content := put (replicate pad 0) ?s2, pos := pos s + ?sid\<rparr>)
      = put (chunk_bytes ID ALIGN d) s" .
  have "record_write_file ID ALIGN (write_array d) s = snd (close_file TYPE('id) ALIGN ?s2 (pos s))"
    unfolding record_write_file_def op using ok by (simp add: ser is_ok_def)
  then show ?thesis
    unfolding cl content by (simp add: len add.assoc)
qed

lemma write_stream_run:
  assumes "state t = ok" "pos t = 0" "state s = ok" "accepts s (length (content t))"
  shows "write_stream t s = s\<lparr>content := put (content t) s, pos := pos s + length (content t)\<rparr>"
proof -
  have "read (length (content t) - pos t) t = (content t, t\<lparr>pos := length (content t)\<rparr>)"
    using assms(1,2) read_fits [of t "length (content t)"] by simp
  then show ?thesis
    using assms(3,4) by (simp add: write_stream_def write_buf_fits)
qed

lemma record_write_basic_unfold:
  "record_write_basic ID ALIGN ser s =
     (if \<not> is_ok (snd (open_file TYPE('sz) ID memory_file)) then s
      else write_stream (snd (seek 0 (record_write_file ID (ALIGN :: 'sz::len word) ser memory_file))) s)"
  by (simp add: record_write_basic_def record_write_file_def Let_def split: prod.splits)

lemma record_write_memory_file:
  fixes ID :: "'id::len word" and ALIGN :: "'sz::len word"
  shows "record_write_file ID ALIGN (write_array d) memory_file =
           \<lparr>content = chunk_bytes ID ALIGN d, pos = length (chunk_bytes ID ALIGN d),
             state = ok, capacity = None\<rparr>"
proof -
  have "record_write_file ID ALIGN (write_array d) memory_file =
          memory_file\<lparr>content := put (chunk_bytes ID ALIGN d) memory_file,
             pos := pos memory_file + length (chunk_bytes ID ALIGN d)\<rparr>"
    by (rule record_write_file_run) (simp_all add: memory_file_def accepts_def)
  then show ?thesis
    by (simp add: memory_file_def put_def)
qed

lemma record_write_basic_run:
  fixes ID :: "'id::len word" and ALIGN :: "'sz::len word"
  assumes ok: "state s = ok"
    and room: "accepts s (length (chunk_bytes ID ALIGN d))"
  shows "record_write_basic ID ALIGN (write_array d) s =
           s\<lparr>content := put (chunk_bytes ID ALIGN d) s,
             pos := pos s + length (chunk_bytes ID ALIGN d)\<rparr>"
proof -
  let ?t = "\<lparr>content = chunk_bytes ID ALIGN d, pos = length (chunk_bytes ID ALIGN d),
             state = ok, capacity = None\<rparr>"
  have "open_file TYPE('sz) ID memory_file =
          (pos memory_file, memory_file\<lparr>content := put (word_bytes ID @ word_bytes (0 :: 'sz word)) memory_file,
                      pos := pos memory_file + (sizeof TYPE('id) + sizeof TYPE('sz))\<rparr>)"
    by (rule open_file_run) (simp_all add: memory_file_def accepts_def)
  then have op: "is_ok (snd (open_file TYPE('sz) ID memory_file))"
    by (simp add: is_ok_def memory_file_def)
  have sk: "snd (seek 0 ?t) = ?t\<lparr>pos := 0\<rparr>"
    by (simp add: seek_def)
  have "write_stream (?t\<lparr>pos := 0\<rparr>) s
      = s\<lparr>content := put (content (?t\<lparr>pos := 0\<rparr>)) s, pos := pos s + length (content (?t\<lparr>pos := 0\<rparr>))\<rparr>"
    by (rule write_stream_run) (simp_all add: ok room)
  then show ?thesis
    using op by (simp add: record_write_basic_unfold record_write_memory_file sk)
qed

text \<open>
  C10. Writing a record to a plain stream, through a temporary in-memory file that is
  copied out, stores the same bytes \<open>ID | SIZE | DATA | PAD\<close> and leaves the same stream as
  writing it to a seekable stream.
\<close>

theorem record_write_basic_same:
  fixes ID :: "'id::len word" and ALIGN :: "'sz::len word"
  assumes align: "ALIGN \<noteq> 0"
    and ok: "state s = ok"
    and within: "pos s \<le> length (content s)"
    and room: "accepts s (length (chunk_bytes ID ALIGN d))"
  shows "record_write_basic ID ALIGN (write_array d) s = record_write_file ID ALIGN (write_array d) s
       \<and> content (record_write_basic ID ALIGN (write_array d) s) =
             take (pos s) (content s) @ chunk_bytes ID ALIGN d
             @ drop (pos s + length (chunk_bytes ID ALIGN d)) (content s)
       \<and> pos (record_write_basic ID ALIGN (write_array d) s) = pos s + length (chunk_bytes ID ALIGN d)
       \<and> state (record_write_basic ID ALIGN (write_array d) s) = ok"
  using ok within
  by (simp add: record_write_basic_run [OF ok room] record_write_file_run [OF ok within room]
      put_within)

theorem record_write_basic_same_witness:
  "(4 :: 8 word) \<noteq> 0
   \<and> accepts \<lparr>content = [5, 5], pos = 2, state = ok, capacity = Some 8\<rparr>
         (length (chunk_bytes (7 :: 8 word) (4 :: 8 word) [1, 2, 3]))
   \<and> record_write_basic (7 :: 8 word) (4 :: 8 word) (write_array [1, 2, 3])
         \<lparr>content = [5, 5], pos = 2, state = ok, capacity = Some 8\<rparr>
       = record_write_file (7 :: 8 word) (4 :: 8 word) (write_array [1, 2, 3])
         \<lparr>content = [5, 5], pos = 2, state = ok, capacity = Some 8\<rparr>
   \<and> content (record_write_basic (7 :: 8 word) (4 :: 8 word) (write_array [1, 2, 3])
         \<lparr>content = [5, 5], pos = 2, state = ok, capacity = Some 8\<rparr>) = [5, 5, 7, 3, 1, 2, 3, 0]"
proof -
  let ?s = "\<lparr>content = [5, 5], pos = 2, state = ok, capacity = Some 8\<rparr>"
  have pd: "padding (4 :: 8 word) 3 = 1" by (simp add: padding_def)
  have ch: "chunk_bytes (7 :: 8 word) (4 :: 8 word) [1, 2, 3] = [7, 3, 1, 2, 3, 0]"
    by (simp add: chunk_bytes_def pd word_bytes_def sizeof_def)
  have h1: "(4 :: 8 word) \<noteq> 0" by simp
  have h2: "state ?s = ok" by simp
  have h3: "pos ?s \<le> length (content ?s)" by simp
  have h4: "accepts ?s (length (chunk_bytes (7 :: 8 word) (4 :: 8 word) [1, 2, 3]))"
    by (simp add: ch accepts_def)
  note t = record_write_basic_same [OF h1 h2 h3 h4]
  have "content (record_write_basic (7 :: 8 word) (4 :: 8 word) (write_array [1, 2, 3]) ?s)
          = [5, 5, 7, 3, 1, 2, 3, 0]"
    using t [THEN conjunct2, THEN conjunct1] by (simp add: ch)
  with h1 h4 t [THEN conjunct1] show ?thesis
    by blast
qed

section \<open>Reading a record\<close>

lemma limiter_read_inv:
  assumes "lim_inv l" "limiter_read n l = (bs, l')"
  shows "bs = take n (window l) \<and> window l' = drop n (window l) \<and> lim_inv l'
       \<and> source l' = (source l)\<lparr>pos := pos (source l')\<rparr>
       \<and> pos (source l') + read_limit l' = pos (source l) + read_limit l
       \<and> pos (source l) \<le> pos (source l')"
proof (cases "l_state l = ok")
  case False
  with assms have "read_limit l = 0" "l' = l" "bs = []"
    by (auto simp: lim_inv_def limiter_read_def)
  with assms(1) show ?thesis
    by (simp add: window_def)
next
  case True
  let ?m = "min n (read_limit l)"
  let ?s = "source l"
  have rd: "read ?m ?s = (take ?m (drop (pos ?s) (content ?s)), ?s\<lparr>pos := pos ?s + ?m\<rparr>)"
    using assms(1) by (intro read_fits) (auto simp: lim_inv_def)
  have bs: "bs = take ?m (drop (pos ?s) (content ?s))"
    and l': "l' = \<lparr>source = ?s\<lparr>pos := pos ?s + ?m\<rparr>, read_limit = read_limit l - length bs,
                    l_state = (if length bs < n then eof else ok)\<rparr>"
    using assms(1,2) True rd by (auto simp: limiter_read_def lim_inv_def)
  have len: "length bs = ?m"
    using assms(1) by (auto simp: bs lim_inv_def)
  have l'': "l' = \<lparr>source = ?s\<lparr>pos := pos ?s + ?m\<rparr>, read_limit = read_limit l - ?m,
                    l_state = (if ?m < n then eof else ok)\<rparr>"
    by (simp add: l' len)
  have 1: "bs = take n (window l)"
    by (simp add: bs window_def min.commute)
  have 2: "window l' = drop n (window l)"
    by (simp add: l'' window_def drop_take) (simp add: min_def ac_simps)
  have 3: "lim_inv l'"
    using assms(1) by (auto simp: l'' lim_inv_def)
  have 4: "source l' = (source l)\<lparr>pos := pos (source l')\<rparr>
       \<and> pos (source l') + read_limit l' = pos (source l) + read_limit l
       \<and> pos (source l) \<le> pos (source l')"
    by (simp add: l'')
  from 1 2 3 4 show ?thesis
    by blast
qed

lemma run_limiter_inv:
  assumes "lim_inv l" "run_limiter d l = (v, l')"
  shows "v = run_bytes d (window l)
       \<and> source l' = (source l)\<lparr>pos := pos (source l')\<rparr>
       \<and> pos (source l') + read_limit l' = pos (source l) + read_limit l
       \<and> pos (source l) \<le> pos (source l')
       \<and> (l_state l' = fail \<longleftrightarrow> v = None)
       \<and> (l_state l' = eof \<longrightarrow> read_limit l' = 0)"
  using assms
proof (induction d arbitrary: l)
  case (Done a)
  then show ?case
    by (auto simp: lim_inv_def)
next
  case Abort
  then show ?case
    by (auto simp: lim_inv_def)
next
  case (Get n k)
  obtain bs l1 where rd: "limiter_read n l = (bs, l1)"
    by (cases "limiter_read n l")
  note step = limiter_read_inv [OF Get.prems(1) rd]
  from Get.prems(2) rd have run: "run_limiter (k bs) l1 = (v, l')"
    by simp
  have "k bs \<in> range k"
    by simp
  note ih = Get.IH [OF this _ run]
  from step have inv1: "lim_inv l1"
    by simp
  note r = ih [OF inv1]
  have "source l' = (source l)\<lparr>pos := pos (source l')\<rparr>"
  proof -
    from r have "source l' = (source l1)\<lparr>pos := pos (source l')\<rparr>" by simp
    also from step have "source l1 = (source l)\<lparr>pos := pos (source l1)\<rparr>" by simp
    finally show ?thesis by simp
  qed
  moreover have "v = run_bytes (Get n k) (window l)"
    using r step by simp
  ultimately show ?case
    using r step by simp
qed

lemma length_window: "lim_inv l \<Longrightarrow> length (window l) = read_limit l"
  by (auto simp: lim_inv_def window_def)

lemma run_limiter_new:
  assumes ok: "state s = ok"
    and fits: "pos s + n \<le> length (content s)"
    and run: "run_limiter d (limiter_new s n) = (v, l')"
  shows "v = run_bytes d (take n (drop (pos s) (content s)))
       \<and> source l' = s\<lparr>pos := pos (source l')\<rparr>
       \<and> pos (source l') + read_limit l' = pos s + n
       \<and> pos s \<le> pos (source l')
       \<and> (l_state l' = fail \<longleftrightarrow> v = None)
       \<and> (l_state l' \<noteq> fail \<longrightarrow> lim_inv l')"
proof -
  have inv: "lim_inv (limiter_new s n)"
    using ok fits by (simp add: lim_inv_def limiter_new_def)
  note r = run_limiter_inv [OF inv run]
  have "l_state l' \<noteq> fail \<longrightarrow> lim_inv l'"
  proof
    assume nf: "l_state l' \<noteq> fail"
    from r have "source l' = s\<lparr>pos := pos (source l')\<rparr>"
      by (simp add: limiter_new_def)
    then have "state (source l') = ok" "content (source l') = content s"
      using ok by (metis stream.select_convs(3) stream.surjective stream.update_convs(2),
                   metis stream.select_convs(1) stream.surjective stream.update_convs(2))
    moreover from r have "pos (source l') + read_limit l' = pos s + n"
      by (simp add: limiter_new_def)
    moreover from r nf have "l_state l' = ok \<or> l_state l' = eof \<and> read_limit l' = 0"
      by (cases "l_state l'") simp_all
    ultimately show "lim_inv l'"
      using fits by (simp add: lim_inv_def)
  qed
  with r show ?thesis
    by (simp add: limiter_new_def window_def)
qed

lemma record_read_file_run:
  fixes ALIGN :: "'sz::len word"
  assumes ok: "state s = ok"
    and S: "S = (size_at s :: 'sz word)"
    and data: "pos s + sizeof TYPE('sz) + unat S \<le> length (content s)"
    and target: "pos s + sizeof TYPE('sz) + unat (S + padding ALIGN S) \<le> length (content s)"
    and dec: "run_bytes d (take (unat S) (drop (pos s + sizeof TYPE('sz)) (content s))) = Some v"
  shows "record_read_file ALIGN d s =
           (Some v, s\<lparr>pos := pos s + sizeof TYPE('sz) + unat (S + padding ALIGN S)\<rparr>)"
proof -
  let ?s1 = "s\<lparr>pos := pos s + sizeof TYPE('sz)\<rparr>"
  have rd: "read_data s = (Some S, ?s1)"
    using ok data by (simp add: read_data_fits S size_at_def)
  obtain v' l' where run: "run_limiter d (limiter_new ?s1 (unat S)) = (v', l')"
    by (cases "run_limiter d (limiter_new ?s1 (unat S))")
  have "state ?s1 = ok" "pos ?s1 + unat S \<le> length (content ?s1)"
    using ok data by simp_all
  note r = run_limiter_new [OF this run]
  from r dec have v': "v' = Some v" and nf: "l_state l' \<noteq> fail"
    by simp_all
  from r have src: "source l' = ?s1\<lparr>pos := pos (source l')\<rparr>"
    by simp
  have "seek (pos s + sizeof TYPE('sz) + unat (S + padding ALIGN S)) (?s1\<lparr>pos := pos (source l')\<rparr>)
      = (pos s + sizeof TYPE('sz) + unat (S + padding ALIGN S),
         s\<lparr>pos := pos s + sizeof TYPE('sz) + unat (S + padding ALIGN S)\<rparr>)"
    using ok target by (simp add: seek_def)
  with src have sk: "snd (seek (pos s + sizeof TYPE('sz) + unat (S + padding ALIGN S)) (source l'))
      = s\<lparr>pos := pos s + sizeof TYPE('sz) + unat (S + padding ALIGN S)\<rparr>"
    by (metis snd_conv)
  show ?thesis
    using nf sk by (simp add: record_read_file_def rd run v' tell_def Let_def)
qed

lemma record_read_basic_run:
  fixes ALIGN :: "'sz::len word"
  assumes ok: "state s = ok"
    and S: "S = (size_at s :: 'sz word)"
    and full: "pos s + sizeof TYPE('sz) + unat S + unat (padding ALIGN S) \<le> length (content s)"
    and dec: "run_bytes d (take (unat S) (drop (pos s + sizeof TYPE('sz)) (content s))) = Some v"
  shows "record_read_basic ALIGN d s =
           (Some v, s\<lparr>pos := pos s + sizeof TYPE('sz) + unat S + unat (padding ALIGN S)\<rparr>)"
proof -
  let ?s1 = "s\<lparr>pos := pos s + sizeof TYPE('sz)\<rparr>"
  have rd: "read_data s = (Some S, ?s1)"
    using ok full by (simp add: read_data_fits S size_at_def)
  obtain v' l' where run: "run_limiter d (limiter_new ?s1 (unat S)) = (v', l')"
    by (cases "run_limiter d (limiter_new ?s1 (unat S))")
  have "state ?s1 = ok" "pos ?s1 + unat S \<le> length (content ?s1)"
    using ok full by simp_all
  note r = run_limiter_new [OF this run]
  from r dec have v': "v' = Some v" and nf: "l_state l' \<noteq> fail"
    by simp_all
  with r have inv: "lim_inv l'"
    by simp
  obtain bs l2 where sk: "limiter_read (read_limit l') l' = (bs, l2)"
    by (cases "limiter_read (read_limit l') l'")
  note q = limiter_read_inv [OF inv sk]
  from q have w2: "window l2 = []" and inv2: "lim_inv l2"
    by (simp_all add: length_window [OF inv])
  have lim0: "read_limit l2 = 0"
    using length_window [OF inv2] by (simp add: w2)
  with q r have p2: "pos (source l2) = pos s + sizeof TYPE('sz) + unat S"
    by simp
  have "source l2 = (source l')\<lparr>pos := pos (source l2)\<rparr>"
    using q by simp
  also have "source l' = ?s1\<lparr>pos := pos (source l')\<rparr>"
    using r by simp
  finally have src2: "source l2 = s\<lparr>pos := pos s + sizeof TYPE('sz) + unat S\<rparr>"
    by (simp add: p2)
  have "skip (unat (padding ALIGN S)) (s\<lparr>pos := pos s + sizeof TYPE('sz) + unat S\<rparr>)
      = s\<lparr>pos := pos s + sizeof TYPE('sz) + unat S + unat (padding ALIGN S)\<rparr>"
    using ok full by (simp add: skip_fits)
  then show ?thesis
    using nf by (simp add: record_read_basic_def rd run v' limiter_skip_def sk src2 Let_def)
qed

text \<open>
  C1. The stream is at the SIZE field of a record with two bytes of data and two of
  padding, followed by another chunk; the deserializer asks for six bytes. Through
  \<^verbatim>\<open>operator >>(std::istream&, record)\<close> it gets the data, the padding and the header of
  the next chunk; through the \<^verbatim>\<open>basic_file\<close> overload it gets the two bytes of data.
  When the record is the last of the stream, the \<^verbatim>\<open>std::istream\<close> is left failed.
\<close>

theorem istream_reads_past_record:
  "record_read_istream (4 :: 8 word) (Get 6 Done)
     \<lparr>content = [2, 10, 11, 0, 0, 9, 1, 77, 0, 0, 0], pos = 0, state = ok, capacity = None\<rparr>
   = (Some [10, 11, 0, 0, 9, 1],
      \<lparr>content = [2, 10, 11, 0, 0, 9, 1, 77, 0, 0, 0], pos = 5, state = ok, capacity = None\<rparr>)
   \<and> record_read_file (4 :: 8 word) (Get 6 Done)
     \<lparr>content = [2, 10, 11, 0, 0, 9, 1, 77, 0, 0, 0], pos = 0, state = ok, capacity = None\<rparr>
   = (Some [10, 11],
      \<lparr>content = [2, 10, 11, 0, 0, 9, 1, 77, 0, 0, 0], pos = 5, state = ok, capacity = None\<rparr>)
   \<and> record_read_istream (4 :: 8 word) (Get 6 Done)
     \<lparr>content = [2, 10, 11, 0, 0], pos = 0, state = ok, capacity = None\<rparr>
   = (Some [10, 11, 0, 0],
      \<lparr>content = [2, 10, 11, 0, 0], pos = 5, state = fail, capacity = None\<rparr>)"
proof -
  have pd: "padding (4 :: 8 word) 2 = 2"
    by (simp add: padding_def)
  show ?thesis
    by (simp add: record_read_istream_def record_read_file_def istream_read_def read_data_def
        read_def tellg_def tell_def seekg_def seek_def limiter_new_def limiter_read_def
        sizeof_def bytes_word_def pd good_def Let_def)
qed

subsection \<open>Writing a record and reading it back\<close>

text \<open>
  C2 (amended). For every value whose serialized length plus padding is less than
  \<open>2 ^ LENGTH('sz)\<close>, the number of values of \<^verbatim>\<open>T_SIZE\<close>: writing it as a record to an ok
  seekable stream that accepts the bytes, seeking to the SIZE field and reading the
  record back yields the value, and the stream is again as the write left it, at
  \<open>start + header + size + padding\<close>. The serializer emits the bytes \<open>enc v\<close>; the
  deserializer is one that decodes these bytes to \<open>v\<close>.
\<close>

theorem record_round_trip:
  fixes ID :: "'id::len word" and ALIGN :: "'sz::len word"
  assumes align: "ALIGN \<noteq> 0"
    and ok: "state s = ok"
    and within: "pos s \<le> length (content s)"
    and room: "accepts s (length (chunk_bytes ID ALIGN (enc v)))"
    and fit: "length (enc v) + unat (padding ALIGN (of_nat (length (enc v)) :: 'sz word)) < 2 ^ LENGTH('sz)"
    and dec: "run_bytes des (enc v) = Some v"
    and wr: "s' = record_write_file ID ALIGN (write_array (enc v)) s"
  shows "record_read_file ALIGN des (snd (seek (pos s + sizeof TYPE('id)) s')) = (Some v, s')
       \<and> pos s' = pos s + (sizeof TYPE('id) + sizeof TYPE('sz)) + length (enc v)
                    + unat (padding ALIGN (of_nat (length (enc v)) :: 'sz word))"
proof -
  let ?sid = "sizeof TYPE('id)" and ?ssz = "sizeof TYPE('sz)"
  define d where "d = enc v"
  define sz where "sz = (of_nat (length d) :: 'sz word)"
  define pad where "pad = unat (padding ALIGN sz)"
  define c where "c = put (chunk_bytes ID ALIGN d) s"
  have chunk: "chunk_bytes ID ALIGN d = word_bytes ID @ (word_bytes sz @ d @ replicate pad 0)"
    by (simp add: chunk_bytes_def Let_def sz_def pad_def)
  have len: "length (chunk_bytes ID ALIGN d) = ?sid + ?ssz + length d + pad"
    by (simp add: chunk)
  have s': "s' = s\<lparr>content := c, pos := pos s + (?sid + ?ssz + length d + pad)\<rparr>"
    using record_write_file_run [OF ok within, of ID ALIGN d] room
    by (simp add: wr d_def [symmetric] len c_def)
  have lenc: "pos s + (?sid + ?ssz + length d + pad) \<le> length c"
    using within by (simp add: c_def length_put len)
  have tail: "drop (pos s + ?sid) c = word_bytes sz @ d @ replicate pad 0 @ drop (pos s + (?sid + ?ssz + length d + pad)) (content s)"
    using drop_put [OF within, of "word_bytes ID" "word_bytes sz @ d @ replicate pad 0"]
    by (simp add: c_def chunk add.assoc)
  let ?r = "s\<lparr>content := c, pos := pos s + ?sid\<rparr>"
  have sk: "snd (seek (pos s + ?sid) s') = ?r"
    using ok lenc by (simp add: s' seek_def)
  have S: "sz = (size_at ?r :: 'sz word)"
    by (simp add: size_at_def tail)
  have usz: "unat sz = length d"
    using fit by (simp add: sz_def d_def unat_of_nat_fits)
  have "length d + pad < 2 ^ LENGTH('sz)"
    using fit by (simp add: pad_def sz_def d_def)
  then have nowrap: "unat (sz + padding ALIGN sz) = length d + pad"
    by (simp add: unat_word_ariths usz pad_def [symmetric])
  have data: "take (unat sz) (drop (pos ?r + ?ssz) (content ?r)) = d"
  proof -
    have "drop (pos s + ?sid + ?ssz) c = drop ?ssz (drop (pos s + ?sid) c)"
      by (simp add: ac_simps)
    then show ?thesis
      by (simp add: tail usz)
  qed
  have "record_read_file ALIGN des ?r =
          (Some v, ?r\<lparr>pos := pos ?r + ?ssz + unat (sz + padding ALIGN sz)\<rparr>)"
  proof (rule record_read_file_run [OF _ S])
    show "state ?r = ok" using ok by simp
    show "pos ?r + ?ssz + unat sz \<le> length (content ?r)"
      using lenc by (simp add: usz)
    show "pos ?r + ?ssz + unat (sz + padding ALIGN sz) \<le> length (content ?r)"
      using lenc by (simp add: nowrap)
    show "run_bytes des (take (unat sz) (drop (pos ?r + ?ssz) (content ?r))) = Some v"
      using dec by (simp only: data d_def)
  qed
  then have "record_read_file ALIGN des ?r = (Some v, s')"
    by (simp add: s' nowrap add.assoc)
  then have "record_read_file ALIGN des (snd (seek (pos s + ?sid) s')) = (Some v, s')"
    by (simp only: sk)
  moreover have "pos s' = pos s + (?sid + ?ssz) + length (enc v)
                    + unat (padding ALIGN (of_nat (length (enc v)) :: 'sz word))"
    by (simp add: s' pad_def sz_def d_def)
  ultimately show ?thesis
    by simp
qed

theorem record_round_trip_witness:
  "(4 :: 8 word) \<noteq> 0
   \<and> length (word_bytes (258 :: 16 word)) + unat (padding (4 :: 8 word) (of_nat (length (word_bytes (258 :: 16 word))))) < 2 ^ LENGTH(8)
   \<and> run_bytes (Get 2 (\<lambda>bs. Done (bytes_word bs :: 16 word))) (word_bytes (258 :: 16 word)) = Some 258
   \<and> record_read_file (4 :: 8 word) (Get 2 (\<lambda>bs. Done (bytes_word bs :: 16 word)))
         (snd (seek 1 (record_write_file (7 :: 8 word) (4 :: 8 word) (write_array (word_bytes (258 :: 16 word))) memory_file)))
       = (Some 258, record_write_file (7 :: 8 word) (4 :: 8 word) (write_array (word_bytes (258 :: 16 word))) memory_file)
   \<and> pos (record_write_file (7 :: 8 word) (4 :: 8 word) (write_array (word_bytes (258 :: 16 word))) memory_file) = 6"
proof -
  let ?des = "Get 2 (\<lambda>bs. Done (bytes_word bs :: 16 word))"
  have wb: "word_bytes (258 :: 16 word) = [2, 1]"
    by (simp add: word_bytes_def sizeof_def)
  have h1: "(4 :: 8 word) \<noteq> 0" by simp
  have h2: "state memory_file = ok" by (simp add: memory_file_def)
  have h3: "pos memory_file \<le> length (content memory_file)" by (simp add: memory_file_def)
  have h4: "accepts memory_file (length (chunk_bytes (7 :: 8 word) (4 :: 8 word) (word_bytes (258 :: 16 word))))"
    by (simp add: accepts_def memory_file_def)
  have pd: "padding (4 :: 8 word) 2 = 2" by (simp add: padding_def)
  have h5: "length (word_bytes (258 :: 16 word)) + unat (padding (4 :: 8 word) (of_nat (length (word_bytes (258 :: 16 word))))) < 2 ^ LENGTH(8)"
    by (simp add: wb pd)
  have h6: "run_bytes ?des (word_bytes (258 :: 16 word)) = Some 258"
    by (simp add: wb bytes_word_def)
  from record_round_trip [where enc = word_bytes and v = "258 :: 16 word", OF h1 h2 h3 h4 h5 h6 refl]
    h1 h5 h6 show ?thesis
    by (simp add: sizeof_def memory_file_def wb pd)
qed

text \<open>
  C2 as stated fails where the length does not fit \<^verbatim>\<open>T_SIZE\<close>: with an 8-bit size, 256
  bytes of data are written with the size 0, and the reader, which decodes these 256
  bytes to themselves when it gets them, gets none.
\<close>

theorem record_round_trip_counterexample:
  "run_bytes (Get 256 Done) (replicate 256 (7 :: byte)) = Some (replicate 256 7)
   \<and> fst (record_read_file (4 :: 8 word) (Get 256 Done)
         (snd (seek 1 (record_write_file (7 :: 8 word) (4 :: 8 word) (write_array (replicate 256 7)) memory_file))))
       = Some []"
proof -
  have pd: "padding (4 :: 8 word) 0 = 0" by (simp add: padding_def)
  have wb: "word_bytes (7 :: 8 word) = [7]" "word_bytes (0 :: 8 word) = [0]"
    by (simp_all add: word_bytes_def sizeof_def)
  have z: "(256 :: 8 word) = 0" by simp
  have ch: "chunk_bytes (7 :: 8 word) (4 :: 8 word) (replicate 256 7) = 7 # 0 # replicate 256 7"
    by (simp add: chunk_bytes_def z pd wb)
  have "fst (record_read_file (4 :: 8 word) (Get 256 Done)
         (snd (seek 1 \<lparr>content = 7 # 0 # replicate 256 7, pos = 258, state = ok, capacity = None\<rparr>))) = Some []"
    by (simp add: record_read_file_def seek_def read_data_def read_def sizeof_def bytes_word_def
        limiter_new_def limiter_read_def pd tell_def Let_def)
  then show ?thesis
    by (simp add: record_write_memory_file ch)
qed

section \<open>Failure of a header read or write\<close>














section \<open>find over a sequence of chunks\<close>

text \<open>
  Where every chunk before the one sought has a size that, with its padding, is a value of
  \<^verbatim>\<open>T_SIZE\<close>, \<^verbatim>\<open>find\<close> steps from chunk to chunk: it reads one ID per chunk, stops at the
  limit with \<open>False\<close>, stops at the SIZE field of the first chunk with the ID sought with
  \<open>True\<close>, and without a limit stops at the end of the data with \<open>False\<close>. The two
  streams at the end of the section, with a chunk of 253 bytes and an 8-bit size, are
  outside this condition.
\<close>

lemma chunks_bytes_Cons:
  "chunks_bytes ALIGN ((i, d) # cs) = chunk_bytes i ALIGN d @ chunks_bytes ALIGN cs"
  by (simp add: chunks_bytes_def)

lemma chunk_step:
  fixes ALIGN :: "'sz::len word" and i rid :: "'id::len word"
  assumes ok: "state s = ok"
    and at: "drop (pos s) (content s) = chunk_bytes i ALIGN d @ rest"
    and fits: "chunk_fits ALIGN d"
  shows "read_data s = (Some i, s\<lparr>pos := pos s + sizeof TYPE('id)\<rparr>)"
    and "ignore_basic ALIGN (s\<lparr>pos := pos s + sizeof TYPE('id)\<rparr>)
           = (True, s\<lparr>pos := pos s + length (chunk_bytes i ALIGN d)\<rparr>)"
    and "drop (pos s + length (chunk_bytes i ALIGN d)) (content s) = rest"
    and "pos s + length (chunk_bytes i ALIGN d) \<le> length (content s)"
proof -
  let ?sid = "sizeof TYPE('id)" and ?ssz = "sizeof TYPE('sz)"
  define S where "S = (of_nat (length d) :: 'sz word)"
  define pad where "pad = unat (padding ALIGN S)"
  have ch: "chunk_bytes i ALIGN d = word_bytes i @ word_bytes S @ d @ replicate pad 0"
    by (simp add: chunk_bytes_def Let_def S_def pad_def)
  have len: "length (chunk_bytes i ALIGN d) = ?sid + ?ssz + length d + pad"
    by (simp add: ch)
  have "length (drop (pos s) (content s)) = length (chunk_bytes i ALIGN d) + length rest"
    by (simp add: at)
  then show le: "pos s + length (chunk_bytes i ALIGN d) \<le> length (content s)"
    using sizeof_pos [where 'a = 'id] by (simp add: len)
  have "take ?sid (drop (pos s) (content s)) = word_bytes i"
    by (simp add: at ch)
  then show rd: "read_data s = (Some i, s\<lparr>pos := pos s + ?sid\<rparr>)"
    using ok le by (simp add: read_data_fits len)
  have d1: "drop (pos s + ?sid) (content s) = word_bytes S @ d @ replicate pad 0 @ rest"
    using arg_cong [OF at, of "drop ?sid"] by (simp add: ch add.commute)
  let ?s1 = "s\<lparr>pos := pos s + ?sid\<rparr>"
  have S: "(size_at ?s1 :: 'sz word) = S"
    by (simp add: size_at_def d1)
  have "length d + pad < 2 ^ LENGTH('sz)"
    using fits by (simp add: chunk_fits_def S_def pad_def)
  then have k: "unat (S + padding ALIGN S) = length d + pad"
    by (simp add: unat_word_ariths S_def pad_def unat_of_nat)
  have "ignore_basic ALIGN ?s1 = (True, ?s1\<lparr>pos := pos ?s1 + ?ssz + (length d + pad)\<rparr>)"
    using ok le by (intro ignore_basic_run) (simp_all add: S k len)
  then show "ignore_basic ALIGN ?s1 = (True, s\<lparr>pos := pos s + length (chunk_bytes i ALIGN d)\<rparr>)"
    by (simp add: len add.assoc)
  show "drop (pos s + length (chunk_bytes i ALIGN d)) (content s) = rest"
    using arg_cong [OF at, of "drop (length (chunk_bytes i ALIGN d))"] by (simp add: add.commute)
qed

lemma find_file_skips:
  fixes ALIGN :: "'sz::len word" and rid :: "'id::len word"
  assumes "state s = ok"
    and "drop (pos s) (content s) = chunks_bytes ALIGN cs @ rest"
    and "pos s \<le> length (content s)"
    and "\<forall>(i, d) \<in> set cs. i \<noteq> rid \<and> chunk_fits ALIGN d"
    and "e = pos s + length (chunks_bytes ALIGN cs)"
    and "e \<noteq> fpos_max"
  shows "find_file ALIGN rid e s = (False, s\<lparr>pos := e\<rparr>)
       \<and> find_file_reads ALIGN rid e s = length cs"
  using assms
proof (induction cs arbitrary: s)
  case Nil
  then have "\<not> (e = fpos_max \<or> tell s < e)"
    by (simp add: chunks_bytes_def tell_def)
  then have "find_file ALIGN rid e s = (False, s)" "find_file_reads ALIGN rid e s = 0"
    by (subst find_file.simps, simp del: find_file.simps,
        subst find_file_reads.simps, simp del: find_file_reads.simps)
  moreover have "s\<lparr>pos := e\<rparr> = s"
    using Nil by (simp add: chunks_bytes_def)
  ultimately show ?case
    by simp
next
  case (Cons c cs)
  obtain i d where c: "c = (i, d)"
    by (cases c)
  from Cons.prems(4) c have ne: "i \<noteq> rid" and fits: "chunk_fits ALIGN d"
    by simp_all
  have at: "drop (pos s) (content s) = chunk_bytes i ALIGN d @ (chunks_bytes ALIGN cs @ rest)"
    using Cons.prems(2) by (simp add: c chunks_bytes_Cons)
  note st = chunk_step [OF Cons.prems(1) at fits]
  let ?s' = "s\<lparr>pos := pos s + length (chunk_bytes i ALIGN d)\<rparr>"
  have e: "e = pos ?s' + length (chunks_bytes ALIGN cs)"
    using Cons.prems(5) by (simp add: c chunks_bytes_Cons)
  have ih: "find_file ALIGN rid e ?s' = (False, ?s'\<lparr>pos := e\<rparr>)
       \<and> find_file_reads ALIGN rid e ?s' = length cs"
  proof (rule Cons.IH)
    show "state ?s' = ok" using Cons.prems(1) by simp
    show "drop (pos ?s') (content ?s') = chunks_bytes ALIGN cs @ rest" using st(3) by simp
    show "pos ?s' \<le> length (content ?s')" using st(4) by simp
    show "\<forall>(i, d) \<in> set cs. i \<noteq> rid \<and> chunk_fits ALIGN d" using Cons.prems(4) by simp
    show "e = pos ?s' + length (chunks_bytes ALIGN cs)" by (rule e)
    show "e \<noteq> fpos_max" by (rule Cons.prems(6))
  qed
  have "0 < length (chunk_bytes i ALIGN d)"
    using sizeof_pos [where 'a = 'id] by (simp add: length_chunk_bytes)
  then have go: "e = fpos_max \<or> tell s < e"
    by (simp add: e tell_def)
  have "find_file ALIGN rid e s = find_file ALIGN rid e ?s'"
    by (subst find_file.simps) (simp add: go st(1,2) ne del: find_file.simps)
  moreover have "find_file_reads ALIGN rid e s = 1 + find_file_reads ALIGN rid e ?s'"
    by (subst find_file_reads.simps) (simp add: go st(1,2) ne del: find_file_reads.simps)
  ultimately show ?case
    using ih by simp
qed

lemma find_file_finds:
  fixes ALIGN :: "'sz::len word" and rid :: "'id::len word"
  assumes "state s = ok"
    and "drop (pos s) (content s) = chunks_bytes ALIGN cs @ word_bytes rid @ rest"
    and "\<forall>(i, d) \<in> set cs. i \<noteq> rid \<and> chunk_fits ALIGN d"
    and "e = fpos_max \<or> pos s + length (chunks_bytes ALIGN cs) < e"
  shows "find_file ALIGN rid e s
           = (True, s\<lparr>pos := pos s + length (chunks_bytes ALIGN cs) + sizeof TYPE('id)\<rparr>)
       \<and> find_file_reads ALIGN rid e s = length cs + 1"
  using assms
proof (induction cs arbitrary: s)
  case Nil
  then have at: "drop (pos s) (content s) = word_bytes rid @ rest"
    by (simp add: chunks_bytes_def)
  have "length (drop (pos s) (content s)) = sizeof TYPE('id) + length rest"
    by (simp add: at)
  then have le: "pos s + sizeof TYPE('id) \<le> length (content s)"
    using sizeof_pos [where 'a = 'id] by simp
  have "take (sizeof TYPE('id)) (drop (pos s) (content s)) = word_bytes rid"
    by (simp add: at)
  then have rd: "read_data s = (Some rid, s\<lparr>pos := pos s + sizeof TYPE('id)\<rparr>)"
    using Nil.prems(1) le by (simp add: read_data_fits)
  have go: "e = fpos_max \<or> tell s < e"
    using Nil.prems(4) by (simp add: chunks_bytes_def tell_def)
  have "find_file ALIGN rid e s = (True, s\<lparr>pos := pos s + sizeof TYPE('id)\<rparr>)"
    by (subst find_file.simps) (simp add: go rd del: find_file.simps)
  moreover have "find_file_reads ALIGN rid e s = 1"
    by (subst find_file_reads.simps) (simp add: go rd del: find_file_reads.simps)
  ultimately show ?case
    by (simp add: chunks_bytes_def)
next
  case (Cons c cs)
  obtain i d where c: "c = (i, d)"
    by (cases c)
  from Cons.prems(3) c have ne: "i \<noteq> rid" and fits: "chunk_fits ALIGN d"
    by simp_all
  have at: "drop (pos s) (content s)
      = chunk_bytes i ALIGN d @ (chunks_bytes ALIGN cs @ word_bytes rid @ rest)"
    using Cons.prems(2) by (simp add: c chunks_bytes_Cons)
  note st = chunk_step [OF Cons.prems(1) at fits]
  let ?s' = "s\<lparr>pos := pos s + length (chunk_bytes i ALIGN d)\<rparr>"
  have ih: "find_file ALIGN rid e ?s'
           = (True, ?s'\<lparr>pos := pos ?s' + length (chunks_bytes ALIGN cs) + sizeof TYPE('id)\<rparr>)
       \<and> find_file_reads ALIGN rid e ?s' = length cs + 1"
  proof (rule Cons.IH)
    show "state ?s' = ok" using Cons.prems(1) by simp
    show "drop (pos ?s') (content ?s') = chunks_bytes ALIGN cs @ word_bytes rid @ rest"
      using st(3) by simp
    show "\<forall>(i, d) \<in> set cs. i \<noteq> rid \<and> chunk_fits ALIGN d" using Cons.prems(3) by simp
    show "e = fpos_max \<or> pos ?s' + length (chunks_bytes ALIGN cs) < e"
      using Cons.prems(4) by (simp add: c chunks_bytes_Cons add.assoc)
  qed
  have go: "e = fpos_max \<or> tell s < e"
    using Cons.prems(4) by (auto simp: tell_def)
  have "find_file ALIGN rid e s = find_file ALIGN rid e ?s'"
    by (subst find_file.simps) (simp add: go st(1,2) ne del: find_file.simps)
  moreover have "find_file_reads ALIGN rid e s = 1 + find_file_reads ALIGN rid e ?s'"
    by (subst find_file_reads.simps) (simp add: go st(1,2) ne del: find_file_reads.simps)
  ultimately show ?case
    using ih by (simp add: c chunks_bytes_Cons add.assoc)
qed

lemma find_file_unbounded:
  fixes ALIGN :: "'sz::len word" and rid :: "'id::len word"
  assumes "state s = ok"
    and "drop (pos s) (content s) = chunks_bytes ALIGN cs"
    and "pos s \<le> length (content s)"
    and "\<forall>(i, d) \<in> set cs. i \<noteq> rid \<and> chunk_fits ALIGN d"
  shows "find_file ALIGN rid fpos_max s = (False, s\<lparr>pos := length (content s), state := eof\<rparr>)"
  using assms
proof (induction cs arbitrary: s)
  case Nil
  then have at_end: "pos s = length (content s)"
    by (simp add: chunks_bytes_def)
  then have "read_data s = (None :: 'id word option, s\<lparr>state := eof\<rparr>)"
    using Nil.prems(1) sizeof_pos [where 'a = 'id] by (simp add: read_data_def read_def)
  then have "find_file ALIGN rid fpos_max s = (False, s\<lparr>state := eof\<rparr>)"
    by (subst find_file.simps) (simp del: find_file.simps)
  then show ?case
    by (simp add: at_end [symmetric])
next
  case (Cons c cs)
  obtain i d where c: "c = (i, d)"
    by (cases c)
  from Cons.prems(4) c have ne: "i \<noteq> rid" and fits: "chunk_fits ALIGN d"
    by simp_all
  have at: "drop (pos s) (content s) = chunk_bytes i ALIGN d @ (chunks_bytes ALIGN cs @ [])"
    using Cons.prems(2) by (simp add: c chunks_bytes_Cons)
  note st = chunk_step [OF Cons.prems(1) at fits]
  let ?s' = "s\<lparr>pos := pos s + length (chunk_bytes i ALIGN d)\<rparr>"
  have ih: "find_file ALIGN rid fpos_max ?s'
      = (False, ?s'\<lparr>pos := length (content ?s'), state := eof\<rparr>)"
  proof (rule Cons.IH)
    show "state ?s' = ok" using Cons.prems(1) by simp
    show "drop (pos ?s') (content ?s') = chunks_bytes ALIGN cs" using st(3) by simp
    show "pos ?s' \<le> length (content ?s')" using st(4) by simp
    show "\<forall>(i, d) \<in> set cs. i \<noteq> rid \<and> chunk_fits ALIGN d" using Cons.prems(4) by simp
  qed
  have "find_file ALIGN rid fpos_max s = find_file ALIGN rid fpos_max ?s'"
    by (subst find_file.simps) (simp add: st(1,2) ne del: find_file.simps)
  then show ?case
    using ih by simp
qed

text \<open>
  C4. The stream holds one chunk, with ID 1, and \<open>end\<close> is its end. \<^verbatim>\<open>find\<close> for ID 2 is
  to read one header and return \<open>False\<close>. After the ID, \<^verbatim>\<open>ignore\<close> skips nothing (C6), the
  first data byte, 2, is read as the next ID, and both overloads return \<open>True\<close> at
  position 3, inside the data, after two reads of an ID.
\<close>

theorem find_overflow_example:
  "find_file (4 :: 8 word) (2 :: 8 word) 258
     \<lparr>content = chunk_bytes (1 :: 8 word) (4 :: 8 word) (2 # replicate 252 0), pos = 0, state = ok, capacity = None\<rparr>
   = (True, \<lparr>content = chunk_bytes (1 :: 8 word) (4 :: 8 word) (2 # replicate 252 0), pos = 3, state = ok, capacity = None\<rparr>)
   \<and> find_file_reads (4 :: 8 word) (2 :: 8 word) 258
     \<lparr>content = chunk_bytes (1 :: 8 word) (4 :: 8 word) (2 # replicate 252 0), pos = 0, state = ok, capacity = None\<rparr>
   = 2
   \<and> find_istream (4 :: 8 word) (2 :: 8 word) 258
     \<lparr>content = chunk_bytes (1 :: 8 word) (4 :: 8 word) (2 # replicate 252 0), pos = 0, state = ok, capacity = None\<rparr>
   = (True, \<lparr>content = chunk_bytes (1 :: 8 word) (4 :: 8 word) (2 # replicate 252 0), pos = 3, state = ok, capacity = None\<rparr>)
   \<and> length (chunk_bytes (1 :: 8 word) (4 :: 8 word) (2 # replicate 252 0)) = 258"
proof -
  have pd: "padding (4 :: 8 word) 253 = 3" by (simp add: padding_def)
  have m: "(258 :: nat) \<noteq> fpos_max" by (simp add: fpos_max_def)
  show ?thesis
    unfolding chunk_253
    by (simp add: m tell_def tellg_def
        ignore_basic_def ignore_istream_def read_data_def read_def istream_read_def
        skip_def istream_ignore_def sizeof_def bytes_word_def pd is_ok_def good_def Let_def)
qed

text \<open>
  C5. The stream holds a chunk with ID 1 and, after it, a chunk with ID 2; the limit is
  the unbounded sentinel. \<^verbatim>\<open>find\<close> for ID 2 is to return \<open>True\<close> at the SIZE field of the
  second chunk. It walks into the data of the first chunk (C6), takes the bytes 9 and
  252 there for a header, skips over the second chunk and returns \<open>False\<close>.
\<close>

theorem find_overflow_missed:
  "fst (find_file (4 :: 8 word) (2 :: 8 word) fpos_max
     \<lparr>content = chunk_bytes (1 :: 8 word) (4 :: 8 word) ([0, 0, 0, 0, 9, 252] @ replicate 247 0)
                 @ chunk_bytes (2 :: 8 word) (4 :: 8 word) [],
       pos = 0, state = ok, capacity = None\<rparr>) = False
   \<and> fst (find_istream (4 :: 8 word) (2 :: 8 word) (- 1)
     \<lparr>content = chunk_bytes (1 :: 8 word) (4 :: 8 word) ([0, 0, 0, 0, 9, 252] @ replicate 247 0)
                 @ chunk_bytes (2 :: 8 word) (4 :: 8 word) [],
       pos = 0, state = ok, capacity = None\<rparr>) = False
   \<and> length (chunk_bytes (1 :: 8 word) (4 :: 8 word) ([0, 0, 0, 0, 9, 252] @ replicate 247 0)) = 258"
proof -
  have pd: "padding (4 :: 8 word) 253 = 3" "padding (4 :: 8 word) 252 = 0" "padding (4 :: 8 word) 0 = 0"
    by (simp_all add: padding_def)
  have c1: "chunk_bytes (1 :: 8 word) (4 :: 8 word) ([0, 0, 0, 0, 9, 252] @ replicate 247 0)
      = [1, 253, 0, 0, 0, 0, 9, 252] @ replicate 247 0 @ replicate 3 0"
    by (simp add: chunk_bytes_def word_bytes_def sizeof_def pd)
  have c2: "chunk_bytes (2 :: 8 word) (4 :: 8 word) [] = [2, 0]"
    by (simp add: chunk_bytes_def word_bytes_def sizeof_def pd)
  show ?thesis
    unfolding c1 c2
    by (simp add: tell_def tellg_def
        ignore_basic_def ignore_istream_def read_data_def read_def istream_read_def
        skip_def istream_ignore_def sizeof_def bytes_word_def pd is_ok_def good_def Let_def)
qed

end
